theory Spec2Isabelle
  imports Main "HOL-Library.Word"
begin

section \<open>The conversion queue of \<^verbatim>\<open>src/ui/convertlist.cpp\<close>\<close>

text \<open>
  \<^verbatim>\<open>ConvertList\<close> owns a vector of heap-allocated tasks (\<^verbatim>\<open>m_tasks\<close>), a raw pointer to
  the task being converted (\<^verbatim>\<open>m_current_task\<close>), the flag \<^verbatim>\<open>is_busy\<close> and the id
  counter \<^verbatim>\<open>prev_index\<close>. It is also a \<^verbatim>\<open>QTreeWidget\<close>: every task has a row in the
  widget, and the task points to its row (\<^verbatim>\<open>listitem\<close>).

  The embedding keeps the pointers: tasks and rows live in two stores indexed by
  addresses, the vector and the widget hold addresses, and a null pointer is \<open>None\<close>.
  Dereferencing an address that is not in its store, and indexing the vector out of
  range, are undefined behaviour in C++; here they are the error results of the
  operation. Calls to the converter and to the probe, and the signals the class emits,
  are recorded in order in a trace.
\<close>

subsection \<open>Data\<close>

type_synonym addr = nat

text \<open>A C++ \<^verbatim>\<open>int\<close>: 32 bits, two's complement, read through \<^const>\<open>sint\<close>.\<close>

type_synonym cint = "32 word"

datatype TaskStatus = QUEUED | RUNNING | FINISHED | FAILED

text \<open>
  Modelled from the spec: \<^verbatim>\<open>ConversionParameters\<close> is declared in
  \<^verbatim>\<open>converter/conversionparameters.h\<close>, which is not part of the source at hand. This
  file reads its members \<^verbatim>\<open>source\<close> and \<^verbatim>\<open>destination\<close> only.
\<close>

record ConversionParameters =
  source :: string
  destination :: string

text \<open>
  Modelled from the spec: \<^verbatim>\<open>Task\<close> and the members of \<^verbatim>\<open>ConvertList\<close> are declared
  in \<^verbatim>\<open>convertlist.h\<close>, which is not part of the source at hand. The fields are the ones
  this file assigns: \<^verbatim>\<open>id\<close> (here \<open>id_no\<close>), \<^verbatim>\<open>param\<close>, \<^verbatim>\<open>status\<close> and \<^verbatim>\<open>listitem\<close>.
  The id and the counter \<^verbatim>\<open>prev_index\<close> are integers of the machine (\<^verbatim>\<open>int\<close>).
\<close>

record Task =
  id_no :: cint
  param :: ConversionParameters
  status :: TaskStatus
  listitem :: addr

text \<open>
  Modelled from the spec: \<^verbatim>\<open>ProgressBar\<close> is declared in \<^verbatim>\<open>progressbar.h\<close>, which is not
  part of the source at hand; its \<^verbatim>\<open>setValue\<close> sets the progress that the row displays.
  A row of the widget is a \<^verbatim>\<open>QTreeWidgetItem\<close> with its four column texts, its tooltips
  and the \<^verbatim>\<open>ProgressBar\<close> that \<^verbatim>\<open>addTask\<close> installs in the progress column. \<open>bar\<close> is
  the value last given to \<^verbatim>\<open>setValue\<close>, \<open>None\<close> as long as it was never called.
\<close>

record Row =
  texts :: "string list"
  tooltips :: "string list"
  bar :: "int option"

text \<open>
  Modelled from the spec: \<^verbatim>\<open>MediaProbe\<close> is declared in \<^verbatim>\<open>converter/mediaprobe.h\<close>,
  which is not part of the source at hand. It inspects one source file and blocks in
  \<^verbatim>\<open>wait()\<close>. The record is what it answers: the result of \<^verbatim>\<open>wait()\<close> (true when it
  completed), of \<^verbatim>\<open>error()\<close>, and the duration as
  \<^verbatim>\<open>sprintf("%02d:%02d:%02.0f", hours, minutes, seconds)\<close> formats it.
\<close>

record Probe =
  wait_ok :: bool
  probe_error :: bool
  duration_text :: string

text \<open>
  Modelled from the spec: \<^verbatim>\<open>MediaConverter\<close> is declared in
  \<^verbatim>\<open>converter/mediaconverter.h\<close>, which is not part of the source at hand. It runs one
  conversion at a time outside the class and answers through the two slots. Its
  \<^verbatim>\<open>start\<close> and \<^verbatim>\<open>stop\<close>, the \<^verbatim>\<open>start\<close> of the probe and the three signals of
  \<^verbatim>\<open>ConvertList\<close> (\<^verbatim>\<open>start_conversion\<close>, \<^verbatim>\<open>task_finished\<close>, \<^verbatim>\<open>all_tasks_finished\<close>) are
  the effects that the trace records.
\<close>

datatype Effect =
    ProbeStart string
  | ConverterStart ConversionParameters
  | ConverterStop
  | StartConversion nat ConversionParameters
  | TaskFinished int
  | AllTasksFinished

datatype error = IndexOutOfRange | InvalidPointer | AddressInUse

record ConvertList =
  task_heap :: "addr \<rightharpoonup> Task"
  item_heap :: "addr \<rightharpoonup> Row"
  m_tasks :: "addr list"
  top_level_items :: "addr list"
  prev_index :: cint
  m_current_task :: "addr option"
  is_busy :: bool
  trace :: "Effect list"

text \<open>The constructor: no task, no row, counter 0, no current task, not busy.\<close>

definition ConvertList_init :: ConvertList where
  "ConvertList_init =
     \<lparr>task_heap = Map.empty, item_heap = Map.empty, m_tasks = [], top_level_items = [],
      prev_index = 0, m_current_task = None, is_busy = False, trace = []\<rparr>"

text \<open>\<^verbatim>\<open>init_treewidget\<close> sets \<^verbatim>\<open>m_progress_column_index = 3\<close>.\<close>

definition m_progress_column_index :: nat where
  "m_progress_column_index = 3"

text \<open>\<^verbatim>\<open>QFileInfo(path).fileName()\<close>: what follows the last slash.\<close>

definition fileName :: "string \<Rightarrow> string" where
  "fileName path = rev (takeWhile (\<lambda>c. c \<noteq> CHR ''/'') (rev path))"

subsection \<open>Queries\<close>

definition isBusy :: "ConvertList \<Rightarrow> bool" where
  "isBusy s = is_busy s"

text \<open>\<^verbatim>\<open>count()\<close> and \<^verbatim>\<open>isEmpty()\<close> ask the widget for its rows, not the vector.\<close>

definition count :: "ConvertList \<Rightarrow> nat" where
  "count s = length (top_level_items s)"

definition isEmpty :: "ConvertList \<Rightarrow> bool" where
  "isEmpty s = (length (top_level_items s) = 0)"

subsection \<open>\<^verbatim>\<open>addTask\<close>\<close>

text \<open>
  \<^verbatim>\<open>addTopLevelItem\<close> of Qt leaves an item alone that already belongs to a view; the
  constructor \<^verbatim>\<open>QTreeWidgetItem(this, columns)\<close> has appended the row before.
\<close>

definition addTopLevelItem :: "addr \<Rightarrow> addr list \<Rightarrow> addr list" where
  "addTopLevelItem item items = (if item \<in> set items then items else items @ [item])"

text \<open>
  \<open>ta\<close> and \<open>ia\<close> are the addresses that \<^verbatim>\<open>new Task()\<close> and \<^verbatim>\<open>new QTreeWidgetItem\<close>
  return. The result is the returned flag and the state.
\<close>

definition addTask ::
  "ConvertList \<Rightarrow> ConversionParameters \<Rightarrow> Probe \<Rightarrow> addr \<Rightarrow> addr \<Rightarrow> bool \<times> ConvertList" where
  "addTask s p probe ta ia =
     (let s0 = s\<lparr>trace := trace s @ [ProbeStart (source p)]\<rparr> in
      if \<not> wait_ok probe \<or> probe_error probe then (False, s0)
      else
        let new_index = prev_index s0 + 1;
            task = \<lparr>id_no = new_index, param = p, status = QUEUED, listitem = ia\<rparr>;
            columns = [fileName (source p), fileName (destination p), duration_text probe, ''''];
            row = \<lparr>texts = columns, tooltips = [source p, destination p], bar = None\<rparr>
        in (True,
            s0\<lparr>prev_index := new_index,
               task_heap := (task_heap s0)(ta \<mapsto> task),
               m_tasks := m_tasks s0 @ [ta],
               item_heap := (item_heap s0)(ia \<mapsto> row),
               top_level_items := addTopLevelItem ia (top_level_items s0 @ [ia])\<rparr>))"

subsection \<open>\<^verbatim>\<open>removeTask\<close>\<close>

text \<open>
  \<^verbatim>\<open>takeTopLevelItem(index)\<close> returns null when the widget has no such row, and
  \<^verbatim>\<open>delete\<close> of null does nothing.
\<close>

definition takeTopLevelItem :: "ConvertList \<Rightarrow> nat \<Rightarrow> ConvertList" where
  "takeTopLevelItem s i =
     (if i < length (top_level_items s)
      then s\<lparr>item_heap := (item_heap s)(top_level_items s ! i := None),
             top_level_items := take i (top_level_items s) @ drop (Suc i) (top_level_items s)\<rparr>
      else s)"

text \<open>
  The vector owns its tasks (\<^verbatim>\<open>TaskPtr\<close>): \<^verbatim>\<open>m_tasks.remove(index)\<close> drops the
  vector's pointer to the task, which destroys the task. An index outside the vector
  is an error.
\<close>

definition removeTask :: "ConvertList \<Rightarrow> int \<Rightarrow> error + ConvertList" where
  "removeTask s index =
     (if index < 0 \<or> int (length (m_tasks s)) \<le> index then Inl IndexOutOfRange
      else
        let i = nat index; a = m_tasks s ! i in
        case task_heap s a of
          None \<Rightarrow> Inl InvalidPointer
        | Some task \<Rightarrow>
            if status task \<noteq> RUNNING
            then Inr (takeTopLevelItem
                       (s\<lparr>m_tasks := take i (m_tasks s) @ drop (Suc i) (m_tasks s),
                          task_heap := (task_heap s)(a := None)\<rparr>) i)
            else Inr s)"

subsection \<open>\<^verbatim>\<open>progress_refreshed\<close>, \<^verbatim>\<open>stop\<close>, \<^verbatim>\<open>start\<close>, \<^verbatim>\<open>task_finished_slot\<close>\<close>

definition progress_refreshed :: "ConvertList \<Rightarrow> int \<Rightarrow> error + ConvertList" where
  "progress_refreshed s percentage =
     (case m_current_task s of
        None \<Rightarrow> Inr s
      | Some a \<Rightarrow>
          (case task_heap s a of
             None \<Rightarrow> Inl InvalidPointer
           | Some task \<Rightarrow>
               (case item_heap s (listitem task) of
                  None \<Rightarrow> Inl InvalidPointer
                | Some row \<Rightarrow>
                    Inr (s\<lparr>item_heap :=
                             (item_heap s)(listitem task \<mapsto> row\<lparr>bar := Some percentage\<rparr>)\<rparr>))))"

definition stop :: "ConvertList \<Rightarrow> error + ConvertList" where
  "stop s =
     (case (case m_current_task s of
              None \<Rightarrow> Inr s
            | Some a \<Rightarrow>
                (case progress_refreshed s 0 of
                   Inl e \<Rightarrow> Inl e
                 | Inr s1 \<Rightarrow>
                     (case task_heap s1 a of
                        None \<Rightarrow> Inl InvalidPointer
                      | Some task \<Rightarrow>
                          Inr (s1\<lparr>task_heap := (task_heap s1)(a \<mapsto> task\<lparr>status := QUEUED\<rparr>),
                                  m_current_task := None\<rparr>)))) of
        Inl e \<Rightarrow> Inl e
      | Inr s2 \<Rightarrow> Inr (s2\<lparr>is_busy := False, trace := trace s2 @ [ConverterStop]\<rparr>))"

text \<open>The \<^verbatim>\<open>for\<close> loop of \<^verbatim>\<open>start\<close>, from index \<open>i\<close>, and the two lines after it.\<close>

function start_loop :: "ConvertList \<Rightarrow> nat \<Rightarrow> nat \<Rightarrow> error + ConvertList" where
  "start_loop s i task_count =
     (if i < task_count then
        (let a = m_tasks s ! i in
         case task_heap s a of
           None \<Rightarrow> Inl InvalidPointer
         | Some task \<Rightarrow>
             if status task = QUEUED
             then Inr (s\<lparr>is_busy := True,
                         task_heap := (task_heap s)(a \<mapsto> task\<lparr>status := RUNNING\<rparr>),
                         m_current_task := Some a,
                         trace := trace s @ [ConverterStart (param task),
                                             StartConversion i (param task)]\<rparr>)
             else start_loop s (Suc i) task_count)
      else
        (case stop s of
           Inl e \<Rightarrow> Inl e
         | Inr s1 \<Rightarrow> Inr (s1\<lparr>trace := trace s1 @ [AllTasksFinished]\<rparr>)))"
  by pat_completeness auto
termination
  by (relation "measure (\<lambda>(s, i, task_count). task_count - i)") auto

definition start :: "ConvertList \<Rightarrow> error + ConvertList" where
  "start s =
     (if is_busy s then Inr s
      else
        let task_count = length (m_tasks s) in
        if task_count = 0 then stop s
        else start_loop s 0 task_count)"

text \<open>
  \<^verbatim>\<open>QTreeWidgetItem::setText(column, text)\<close>: Qt enlarges the item's values when
  the column is beyond them.
\<close>

definition setText :: "nat \<Rightarrow> string \<Rightarrow> string list \<Rightarrow> string list" where
  "setText column txt values =
     (if length values \<le> column
      then values @ replicate (column - length values) [] @ [txt]
      else values[column := txt])"

text \<open>
  The failure branch of \<^verbatim>\<open>task_finished_slot\<close>: the bar of the row goes to 0 and the
  text of the progress column becomes \<^verbatim>\<open>tr("Failed")\<close>.
\<close>

definition show_failed :: "ConvertList \<Rightarrow> addr \<Rightarrow> error + ConvertList" where
  "show_failed s item =
     (case item_heap s item of
        None \<Rightarrow> Inl InvalidPointer
      | Some row \<Rightarrow>
          Inr (s\<lparr>item_heap :=
                   (item_heap s)(item \<mapsto>
                      row\<lparr>bar := Some 0,
                          texts := setText m_progress_column_index ''Failed'' (texts row)\<rparr>)\<rparr>))"

definition task_finished_slot :: "ConvertList \<Rightarrow> int \<Rightarrow> error + ConvertList" where
  "task_finished_slot s exitcode =
     (case m_current_task s of
        None \<Rightarrow> Inr s
      | Some a \<Rightarrow>
          (case task_heap s a of
             None \<Rightarrow> Inl InvalidPointer
           | Some task \<Rightarrow>
               (let s1 = s\<lparr>task_heap :=
                            (task_heap s)(a \<mapsto>
                               task\<lparr>status := (if exitcode = 0 then FINISHED else FAILED)\<rparr>)\<rparr>
                in case (if exitcode \<noteq> 0 then show_failed s1 (listitem task) else Inr s1) of
                     Inl e \<Rightarrow> Inl e
                   | Inr s2 \<Rightarrow>
                       start (s2\<lparr>m_current_task := None,
                                 trace := trace s2 @ [TaskFinished exitcode],
                                 is_busy := False\<rparr>))))"

subsection \<open>Sequences of operations\<close>

datatype Op =
    AddTask ConversionParameters Probe addr addr
  | RemoveTask int
  | Start
  | Stop
  | OnProgress int
  | OnFinished int

text \<open>
  One operation. \<^verbatim>\<open>new\<close> never returns the address of a live object: an \<open>AddTask\<close> whose
  addresses are in use is no execution of the program and is refused.
\<close>

fun exec :: "ConvertList \<Rightarrow> Op \<Rightarrow> error + ConvertList" where
  "exec s (AddTask p probe ta ia) =
     (if task_heap s ta \<noteq> None \<or> item_heap s ia \<noteq> None then Inl AddressInUse
      else Inr (snd (addTask s p probe ta ia)))"
| "exec s (RemoveTask index) = removeTask s index"
| "exec s Start = start s"
| "exec s Stop = stop s"
| "exec s (OnProgress percentage) = progress_refreshed s percentage"
| "exec s (OnFinished exitcode) = task_finished_slot s exitcode"

fun run :: "ConvertList \<Rightarrow> Op list \<Rightarrow> error + ConvertList" where
  "run s [] = Inr s"
| "run s (x # xs) = (case exec s x of Inl e \<Rightarrow> Inl e | Inr s1 \<Rightarrow> run s1 xs)"


section \<open>Properties\<close>

subsection \<open>Vocabulary of the properties\<close>

text \<open>
  The status of the task at an address, when a task lives there.
\<close>

definition status_of :: "ConvertList \<Rightarrow> addr \<Rightarrow> TaskStatus option" where
  "status_of s a = map_option status (task_heap s a)"

text \<open>
  The number of entries of \<^verbatim>\<open>m_tasks\<close> whose task is \<^verbatim>\<open>RUNNING\<close>.
\<close>

definition running_count :: "ConvertList \<Rightarrow> nat" where
  "running_count s = length (filter (\<lambda>a. status_of s a = Some RUNNING) (m_tasks s))"

text \<open>
  \<open>k\<close> is the position of the first \<^verbatim>\<open>QUEUED\<close> task of the vector.
\<close>

definition first_queued :: "ConvertList \<Rightarrow> nat \<Rightarrow> bool" where
  "first_queued s k \<longleftrightarrow>
     k < length (m_tasks s) \<and> status_of s (m_tasks s ! k) = Some QUEUED \<and>
     (\<forall>a \<in> set (take k (m_tasks s)). status_of s a \<noteq> Some QUEUED)"

text \<open>
  The changes of status that an operation may make to one task. \<open>OnFinished\<close> ends the
  running task and, through the \<^verbatim>\<open>start\<close> it calls, launches a waiting one.
\<close>

fun edge :: "Op \<Rightarrow> TaskStatus \<Rightarrow> TaskStatus \<Rightarrow> bool" where
  "edge Start st st' \<longleftrightarrow> st = QUEUED \<and> st' = RUNNING"
| "edge Stop st st' \<longleftrightarrow> st = RUNNING \<and> st' = QUEUED"
| "edge (OnFinished exitcode) st st' \<longleftrightarrow>
     st = RUNNING \<and> st' = (if exitcode = 0 then FINISHED else FAILED) \<or>
     st = QUEUED \<and> st' = RUNNING"
| "edge (AddTask p probe ta ia) st st' \<longleftrightarrow> False"
| "edge (RemoveTask index) st st' \<longleftrightarrow> False"
| "edge (OnProgress percentage) st st' \<longleftrightarrow> False"

text \<open>
  No step of the run removes the task at the address \<open>a\<close>.
\<close>

fun kept :: "addr \<Rightarrow> ConvertList \<Rightarrow> Op list \<Rightarrow> bool" where
  "kept a s [] \<longleftrightarrow> True"
| "kept a s (x # xs) \<longleftrightarrow>
     (case exec s x of Inl e \<Rightarrow> True | Inr s1 \<Rightarrow> task_heap s1 a \<noteq> None \<and> kept a s1 xs)"


subsection \<open>The invariant\<close>

text \<open>
  The invariant of the class has three parts. First the vector: no task is listed twice,
  and every listed task is alive.
\<close>

definition tasks_ok :: "ConvertList \<Rightarrow> bool" where
  "tasks_ok s \<longleftrightarrow> distinct (m_tasks s) \<and> (\<forall>a \<in> set (m_tasks s). task_heap s a \<noteq> None)"

text \<open>
  Then the running task: \<^verbatim>\<open>is_busy\<close> holds exactly when \<^verbatim>\<open>m_current_task\<close> is set, the
  current task is listed and \<^verbatim>\<open>RUNNING\<close>, and no other listed task is \<^verbatim>\<open>RUNNING\<close>.
\<close>

definition current_ok :: "ConvertList \<Rightarrow> bool" where
  "current_ok s \<longleftrightarrow>
     (is_busy s \<longleftrightarrow> m_current_task s \<noteq> None) \<and>
     (case m_current_task s of
        None \<Rightarrow> True
      | Some a \<Rightarrow> a \<in> set (m_tasks s) \<and> status_of s a = Some RUNNING) \<and>
     (\<forall>a \<in> set (m_tasks s). status_of s a = Some RUNNING \<longrightarrow> m_current_task s = Some a)"

text \<open>
  Last the widget: its rows are the \<^verbatim>\<open>listitem\<close>s of the listed tasks, in the same order,
  without repetition, and every row is alive.
\<close>

definition rows_ok :: "ConvertList \<Rightarrow> bool" where
  "rows_ok s \<longleftrightarrow>
     map (\<lambda>a. listitem (the (task_heap s a))) (m_tasks s) = top_level_items s \<and>
     distinct (top_level_items s) \<and>
     (\<forall>i \<in> set (top_level_items s). item_heap s i \<noteq> None)"

text \<open>
  The invariant.
\<close>

definition wf :: "ConvertList \<Rightarrow> bool" where
  "wf s \<longleftrightarrow> tasks_ok s \<and> current_ok s \<and> rows_ok s"

subsection \<open>States that the operations build\<close>

text \<open>
  The state in which \<^verbatim>\<open>start\<close> returns after it has launched the task at position \<open>k\<close>.
\<close>

definition started :: "ConvertList \<Rightarrow> nat \<Rightarrow> Task \<Rightarrow> ConvertList" where
  "started s k t =
     s\<lparr>is_busy := True,
       task_heap := (task_heap s)(m_tasks s ! k \<mapsto> t\<lparr>status := RUNNING\<rparr>),
       m_current_task := Some (m_tasks s ! k),
       trace := trace s @ [ConverterStart (param t), StartConversion k (param t)]\<rparr>"

text \<open>
  The state that \<^verbatim>\<open>task_finished_slot\<close> has built when it calls \<^verbatim>\<open>start\<close>: the current
  task \<open>a\<close> (with fields \<open>t\<close> and row \<open>row\<close>) has its final status.
\<close>

definition finished_mid :: "ConvertList \<Rightarrow> addr \<Rightarrow> Task \<Rightarrow> Row \<Rightarrow> int \<Rightarrow> ConvertList" where
  "finished_mid s a t row exitcode =
     s\<lparr>task_heap := (task_heap s)(a \<mapsto> t\<lparr>status := (if exitcode = 0 then FINISHED else FAILED)\<rparr>),
       item_heap := (if exitcode \<noteq> 0
                     then (item_heap s)(listitem t \<mapsto>
                            row\<lparr>bar := Some 0, texts := setText m_progress_column_index ''Failed'' (texts row)\<rparr>)
                     else item_heap s),
       m_current_task := None,
       trace := trace s @ [TaskFinished exitcode],
       is_busy := False\<rparr>"

text \<open>
  The state that \<^verbatim>\<open>removeTask\<close> leaves when the task at position \<open>i\<close> is not running.
\<close>

definition removed :: "ConvertList \<Rightarrow> nat \<Rightarrow> ConvertList" where
  "removed s i =
     s\<lparr>m_tasks := take i (m_tasks s) @ drop (Suc i) (m_tasks s),
       task_heap := (task_heap s)(m_tasks s ! i := None),
       item_heap := (item_heap s)(top_level_items s ! i := None),
       top_level_items := take i (top_level_items s) @ drop (Suc i) (top_level_items s)\<rparr>"

subsection \<open>An example\<close>

text \<open>
  An example run: two files are added, the queue is started, the first conversion
  succeeds and the second one fails.
\<close>

definition params_A :: ConversionParameters where
  "params_A = \<lparr>source = ''/in/a.avi'', destination = ''/out/a.mp4''\<rparr>"

definition params_B :: ConversionParameters where
  "params_B = \<lparr>source = ''/in/b.avi'', destination = ''/out/b.mp4''\<rparr>"

definition probe_ok :: Probe where
  "probe_ok = \<lparr>wait_ok = True, probe_error = False, duration_text = ''00:01:30''\<rparr>"

definition probe_failed :: Probe where
  "probe_failed = \<lparr>wait_ok = True, probe_error = True, duration_text = ''''\<rparr>"

definition scenario :: "Op list" where
  "scenario = [AddTask params_A probe_ok 10 11, AddTask params_B probe_ok 20 21, Start]"

text \<open>
  The state after the two additions only.
\<close>

definition queued_two :: ConvertList where
  "queued_two =
     projr (run ConvertList_init
              [AddTask params_A probe_ok 10 11, AddTask params_B probe_ok 20 21])"

text \<open>
  The state after the two additions and \<^verbatim>\<open>start\<close>: the first task runs, the second waits.
\<close>

definition after_scenario :: ConvertList where
  "after_scenario = projr (run ConvertList_init scenario)"

text \<open>
  The example after the first conversion has succeeded: the second task runs.
\<close>

definition after_success :: ConvertList where
  "after_success = projr (run ConvertList_init (scenario @ [OnFinished 0]))"

text \<open>
  The state at the end of the example: one task finished, one failed, nothing running.
\<close>

definition drained :: ConvertList where
  "drained = projr (run ConvertList_init (scenario @ [OnFinished 0, OnFinished 1]))"



section \<open>The invariant and the effect of each operation\<close>

subsection \<open>The invariant: rules, the initial state, \<^verbatim>\<open>addTask\<close>\<close>

lemma current_okI:
  assumes "is_busy s \<longleftrightarrow> m_current_task s \<noteq> None"
    and "\<And>a. m_current_task s = Some a \<Longrightarrow> a \<in> set (m_tasks s) \<and> status_of s a = Some RUNNING"
    and "\<And>a. a \<in> set (m_tasks s) \<Longrightarrow> status_of s a = Some RUNNING \<Longrightarrow> m_current_task s = Some a"
  shows "current_ok s"
proof -
  have c: "case m_current_task s of None \<Rightarrow> True
           | Some a \<Rightarrow> a \<in> set (m_tasks s) \<and> status_of s a = Some RUNNING"
  proof (cases "m_current_task s")
    case None
    then show ?thesis by (simp only: option.case)
  next
    case (Some c)
    from assms(2) [OF Some] show ?thesis by (simp only: Some option.case)
  qed
  have r: "\<forall>a \<in> set (m_tasks s). status_of s a = Some RUNNING \<longrightarrow> m_current_task s = Some a"
    using assms(3) by blast
  from assms(1) c r show ?thesis unfolding current_ok_def by (intro conjI)
qed

lemma current_ok_busy: "current_ok s \<Longrightarrow> is_busy s \<longleftrightarrow> m_current_task s \<noteq> None"
  unfolding current_ok_def by blast

lemma current_ok_current:
  assumes "current_ok s" "m_current_task s = Some a"
  shows "a \<in> set (m_tasks s) \<and> status_of s a = Some RUNNING"
proof -
  from assms(1) have "case m_current_task s of None \<Rightarrow> True
           | Some a \<Rightarrow> a \<in> set (m_tasks s) \<and> status_of s a = Some RUNNING"
    unfolding current_ok_def by (elim conjE)
  then show ?thesis by (simp only: assms(2) option.case)
qed

lemma current_ok_running:
  "current_ok s \<Longrightarrow> a \<in> set (m_tasks s) \<Longrightarrow> status_of s a = Some RUNNING \<Longrightarrow> m_current_task s = Some a"
  unfolding current_ok_def by blast

lemma wf_init: "wf ConvertList_init"
  by (simp add: wf_def tasks_ok_def current_ok_def rows_ok_def ConvertList_init_def)

lemma addTask_fail:
  "\<not> wait_ok probe \<or> probe_error probe \<Longrightarrow>
   addTask s p probe ta ia = (False, s\<lparr>trace := trace s @ [ProbeStart (source p)]\<rparr>)"
  by (simp add: addTask_def Let_def)

lemma addTask_ok:
  "wait_ok probe \<Longrightarrow> \<not> probe_error probe \<Longrightarrow>
   addTask s p probe ta ia =
     (True,
      s\<lparr>trace := trace s @ [ProbeStart (source p)],
        prev_index := prev_index s + 1,
        task_heap := (task_heap s)(ta \<mapsto>
           \<lparr>id_no = prev_index s + 1, param = p, status = QUEUED, listitem = ia\<rparr>),
        m_tasks := m_tasks s @ [ta],
        item_heap := (item_heap s)(ia \<mapsto>
           \<lparr>texts = [fileName (source p), fileName (destination p), duration_text probe, ''''],
            tooltips = [source p, destination p], bar = None\<rparr>),
        top_level_items := top_level_items s @ [ia]\<rparr>)"
  by (simp add: addTask_def Let_def addTopLevelItem_def)

lemma tasks_ok_addTask:
  assumes "tasks_ok s" "task_heap s ta = None"
  shows "tasks_ok (snd (addTask s p probe ta ia))"
proof (cases "\<not> wait_ok probe \<or> probe_error probe")
  case True
  then show ?thesis using assms by (simp add: addTask_fail tasks_ok_def)
next
  case False
  from assms have "ta \<notin> set (m_tasks s)" by (auto simp: tasks_ok_def)
  with False assms show ?thesis by (simp add: addTask_ok tasks_ok_def)
qed

lemma status_of_upd [simp]:
  "status_of (s\<lparr>trace := tr\<rparr>) = status_of s"
  "status_of (s\<lparr>is_busy := b\<rparr>) = status_of s"
  "status_of (s\<lparr>m_current_task := c\<rparr>) = status_of s"
  "status_of (s\<lparr>item_heap := ih\<rparr>) = status_of s"
  "status_of (s\<lparr>prev_index := n\<rparr>) = status_of s"
  "status_of (s\<lparr>top_level_items := its\<rparr>) = status_of s"
  "status_of (s\<lparr>m_tasks := ts\<rparr>) = status_of s"
  by (simp_all add: status_of_def fun_eq_iff)

text \<open>
  The three parts depend on few fields; these rules carry a part over to a state that
  agrees on them.
\<close>

lemma current_ok_cong:
  assumes "is_busy s' = is_busy s" "m_current_task s' = m_current_task s" "m_tasks s' = m_tasks s"
    and "\<And>a. a \<in> set (m_tasks s) \<Longrightarrow> status_of s' a = status_of s a"
    and "current_ok s"
  shows "current_ok s'"
proof (rule current_okI)
  show "is_busy s' \<longleftrightarrow> m_current_task s' \<noteq> None"
    using current_ok_busy [OF assms(5)] by (simp only: assms(1,2))
next
  fix a assume "m_current_task s' = Some a"
  then have c: "m_current_task s = Some a" by (simp only: assms(2))
  from current_ok_current [OF assms(5) c]
  have m: "a \<in> set (m_tasks s)" and r: "status_of s a = Some RUNNING" by blast+
  from m r assms(4) [OF m]
  show "a \<in> set (m_tasks s') \<and> status_of s' a = Some RUNNING"
    by (simp add: assms(3))
next
  fix a assume "a \<in> set (m_tasks s')" "status_of s' a = Some RUNNING"
  then have "a \<in> set (m_tasks s)" "status_of s a = Some RUNNING"
    using assms(4) [of a] by (simp_all only: assms(3))
  then have "m_current_task s = Some a" by (rule current_ok_running [OF assms(5)])
  then show "m_current_task s' = Some a" by (simp only: assms(2))
qed

lemma current_ok_addTask:
  assumes "tasks_ok s" "current_ok s" "task_heap s ta = None"
  shows "current_ok (snd (addTask s p probe ta ia))"
proof (cases "\<not> wait_ok probe \<or> probe_error probe")
  case True
  have "current_ok (s\<lparr>trace := trace s @ [ProbeStart (source p)]\<rparr>)"
    by (rule current_ok_cong [OF _ _ _ _ assms(2)]) simp_all
  with True show ?thesis by (simp add: addTask_fail)
next
  case False
  from assms have nta: "ta \<notin> set (m_tasks s)" by (auto simp: tasks_ok_def)
  have cur: "m_current_task s \<noteq> Some ta"
    using current_ok_current [OF assms(2), of ta] nta by blast
  show ?thesis
  proof (rule current_okI)
    show "is_busy (snd (addTask s p probe ta ia)) \<longleftrightarrow> m_current_task (snd (addTask s p probe ta ia)) \<noteq> None"
      using False current_ok_busy [OF assms(2)] by (simp add: addTask_ok)
  next
    fix a assume "m_current_task (snd (addTask s p probe ta ia)) = Some a"
    with False have c: "m_current_task s = Some a" by (simp add: addTask_ok)
    with cur have "a \<noteq> ta" by blast
    with current_ok_current [OF assms(2) c] False
    show "a \<in> set (m_tasks (snd (addTask s p probe ta ia))) \<and> status_of (snd (addTask s p probe ta ia)) a = Some RUNNING"
      by (simp add: addTask_ok status_of_def)
  next
    fix a assume a: "a \<in> set (m_tasks (snd (addTask s p probe ta ia)))"
      and r: "status_of (snd (addTask s p probe ta ia)) a = Some RUNNING"
    from r False have "a \<noteq> ta" by (auto simp: addTask_ok status_of_def)
    with a r False have "a \<in> set (m_tasks s)" "status_of s a = Some RUNNING"
      by (simp_all add: addTask_ok status_of_def)
    then have "m_current_task s = Some a" by (rule current_ok_running [OF assms(2)])
    with False show "m_current_task (snd (addTask s p probe ta ia)) = Some a" by (simp add: addTask_ok)
  qed
qed

lemma rows_ok_addTask:
  assumes "tasks_ok s" "rows_ok s" "task_heap s ta = None" "item_heap s ia = None"
  shows "rows_ok (snd (addTask s p probe ta ia))"
proof (cases "\<not> wait_ok probe \<or> probe_error probe")
  case True
  then show ?thesis using assms by (auto simp: addTask_fail rows_ok_def)
next
  case False
  from assms have nta: "ta \<notin> set (m_tasks s)" by (auto simp: tasks_ok_def)
  from assms have nia: "ia \<notin> set (top_level_items s)" by (auto simp: rows_ok_def)
  have m: "map (\<lambda>a. listitem (the (if a = ta then Some t else task_heap s a))) (m_tasks s)
         = map (\<lambda>a. listitem (the (task_heap s a))) (m_tasks s)" for t
    using nta by (intro map_cong) auto
  have d: "distinct (top_level_items s)" and l: "\<forall>i \<in> set (top_level_items s). item_heap s i \<noteq> None"
    and e: "map (\<lambda>a. listitem (the (task_heap s a))) (m_tasks s) = top_level_items s"
    using assms by (simp_all add: rows_ok_def)
  show ?thesis
    unfolding rows_ok_def using False nia d l e
    by (simp add: addTask_ok m fun_upd_def)
qed

subsection \<open>\<^verbatim>\<open>progress_refreshed\<close> and \<^verbatim>\<open>stop\<close>\<close>

text \<open>
  In a state that satisfies the invariant the current task can be dereferenced, and so
  can its row: \<^verbatim>\<open>progress_refreshed\<close>, \<^verbatim>\<open>stop\<close> and \<^verbatim>\<open>task_finished_slot\<close> do not fail.
\<close>

lemma wf_current:
  assumes "wf s" "m_current_task s = Some a"
  obtains t row where "task_heap s a = Some t" "status t = RUNNING" "a \<in> set (m_tasks s)"
    "item_heap s (listitem t) = Some row" "is_busy s"
proof -
  from assms(1) have c: "current_ok s" and r: "rows_ok s" by (simp_all add: wf_def)
  from current_ok_current [OF c assms(2)]
  have a: "a \<in> set (m_tasks s)" and st: "status_of s a = Some RUNNING" by blast+
  from current_ok_busy [OF c] assms(2) have b: "is_busy s" by simp
  from st obtain t where t: "task_heap s a = Some t" "status t = RUNNING"
    by (auto simp: status_of_def)
  from r have m: "map (\<lambda>a. listitem (the (task_heap s a))) (m_tasks s) = top_level_items s"
    and l: "\<forall>i \<in> set (top_level_items s). item_heap s i \<noteq> None"
    by (simp_all add: rows_ok_def)
  have "listitem (the (task_heap s a)) \<in> set (map (\<lambda>a. listitem (the (task_heap s a))) (m_tasks s))"
    using a by (simp only: set_map) (rule imageI)
  then have "listitem t \<in> set (top_level_items s)"
    using t by (simp only: m option.sel)
  with l obtain row where "item_heap s (listitem t) = Some row" by auto
  with a t b show thesis using that by blast
qed

lemma wf_not_busy:
  assumes "wf s" "\<not> is_busy s"
  shows "m_current_task s = None"
  using assms current_ok_busy [of s] by (simp add: wf_def)

lemma wf_not_busy_running:
  assumes "wf s" "\<not> is_busy s" "a \<in> set (m_tasks s)"
  shows "status_of s a \<noteq> Some RUNNING"
proof
  assume "status_of s a = Some RUNNING"
  with assms(1,3) have "m_current_task s = Some a"
    using current_ok_running [of s a] by (simp add: wf_def)
  with wf_not_busy [OF assms(1,2)] show False by simp
qed

lemma progress_refreshed_None:
  "m_current_task s = None \<Longrightarrow> progress_refreshed s p = Inr s"
  by (simp add: progress_refreshed_def)

lemma progress_refreshed_Some:
  "m_current_task s = Some a \<Longrightarrow> task_heap s a = Some t \<Longrightarrow> item_heap s (listitem t) = Some row \<Longrightarrow>
   progress_refreshed s p =
     Inr (s\<lparr>item_heap := (item_heap s)(listitem t \<mapsto> row\<lparr>bar := Some p\<rparr>)\<rparr>)"
  by (simp add: progress_refreshed_def)

lemma stop_None:
  "m_current_task s = None \<Longrightarrow>
   stop s = Inr (s\<lparr>is_busy := False, trace := trace s @ [ConverterStop]\<rparr>)"
  by (simp add: stop_def)

lemma stop_Some:
  "m_current_task s = Some a \<Longrightarrow> task_heap s a = Some t \<Longrightarrow> item_heap s (listitem t) = Some row \<Longrightarrow>
   stop s =
     Inr (s\<lparr>item_heap := (item_heap s)(listitem t \<mapsto> row\<lparr>bar := Some 0\<rparr>),
            task_heap := (task_heap s)(a \<mapsto> t\<lparr>status := QUEUED\<rparr>),
            m_current_task := None,
            is_busy := False,
            trace := trace s @ [ConverterStop]\<rparr>)"
  by (simp add: stop_def progress_refreshed_Some)

lemma tasks_ok_cong:
  assumes "m_tasks s' = m_tasks s" "\<And>a. a \<in> set (m_tasks s) \<Longrightarrow> task_heap s' a \<noteq> None"
    and "tasks_ok s"
  shows "tasks_ok s'"
  using assms by (simp add: tasks_ok_def)

lemma rows_ok_cong:
  assumes "m_tasks s' = m_tasks s" "top_level_items s' = top_level_items s"
    and "\<And>a. a \<in> set (m_tasks s) \<Longrightarrow> listitem (the (task_heap s' a)) = listitem (the (task_heap s a))"
    and "\<And>i. i \<in> set (top_level_items s) \<Longrightarrow> item_heap s' i \<noteq> None"
    and "rows_ok s"
  shows "rows_ok s'"
proof -
  have "map (\<lambda>a. listitem (the (task_heap s' a))) (m_tasks s)
      = map (\<lambda>a. listitem (the (task_heap s a))) (m_tasks s)"
    using assms(3) by (intro map_cong) auto
  with assms(1,2,4,5) show ?thesis by (simp add: rows_ok_def)
qed

lemma rows_ok_live: "rows_ok s \<Longrightarrow> i \<in> set (top_level_items s) \<Longrightarrow> \<exists>row. item_heap s i = Some row"
  by (simp add: rows_ok_def)

lemma tasks_ok_live: "tasks_ok s \<Longrightarrow> a \<in> set (m_tasks s) \<Longrightarrow> \<exists>t. task_heap s a = Some t"
  by (simp add: tasks_ok_def)

lemma wf_progress_refreshed:
  assumes "wf s" "progress_refreshed s p = Inr s'"
  shows "wf s'"
proof (cases "m_current_task s")
  case None
  with assms show ?thesis by (simp add: progress_refreshed_None)
next
  case (Some a)
  with assms(1) obtain t row where tr: "task_heap s a = Some t" "item_heap s (listitem t) = Some row"
    by (rule wf_current)
  from assms(2) have s': "s' = s\<lparr>item_heap := (item_heap s)(listitem t \<mapsto> row\<lparr>bar := Some p\<rparr>)\<rparr>"
    by (simp add: progress_refreshed_Some [OF Some tr])
  from assms(1) have t: "tasks_ok s" and c: "current_ok s" and r: "rows_ok s" by (simp_all add: wf_def)
  have "tasks_ok s'"
    by (rule tasks_ok_cong [OF _ _ t]) (simp_all add: s' tasks_ok_live [OF t])
  moreover have "current_ok s'"
    by (rule current_ok_cong [OF _ _ _ _ c]) (simp_all add: s')
  moreover have "rows_ok s'"
    by (rule rows_ok_cong [OF _ _ _ _ r]) (simp_all add: s' rows_ok_live [OF r])
  ultimately show ?thesis by (simp add: wf_def)
qed

lemma progress_refreshed_total:
  assumes "wf s"
  shows "\<exists>s'. progress_refreshed s p = Inr s'"
proof (cases "m_current_task s")
  case None
  then show ?thesis by (simp add: progress_refreshed_None)
next
  case (Some a)
  with assms obtain t row where "task_heap s a = Some t" "item_heap s (listitem t) = Some row"
    by (rule wf_current)
  with Some show ?thesis by (simp add: progress_refreshed_Some)
qed

lemma wf_stop_None:
  assumes "wf s" "m_current_task s = None"
  shows "wf (s\<lparr>is_busy := False, trace := trace s @ [ConverterStop]\<rparr>)"
proof -
  let ?s' = "s\<lparr>is_busy := False, trace := trace s @ [ConverterStop]\<rparr>"
  from assms(1) have t: "tasks_ok s" and c: "current_ok s" and r: "rows_ok s" by (simp_all add: wf_def)
  from current_ok_busy [OF c] assms(2) have nb: "\<not> is_busy s" by simp
  have "tasks_ok ?s'"
    by (rule tasks_ok_cong [OF _ _ t]) (simp_all add: tasks_ok_live [OF t])
  moreover have "current_ok ?s'"
    by (rule current_ok_cong [OF _ _ _ _ c]) (simp_all add: nb)
  moreover have "rows_ok ?s'"
    by (rule rows_ok_cong [OF _ _ _ _ r]) (simp_all add: rows_ok_live [OF r])
  ultimately show ?thesis by (simp add: wf_def)
qed

lemma wf_stop_Some:
  assumes "wf s" "m_current_task s = Some a" "task_heap s a = Some t" "item_heap s (listitem t) = Some row"
  shows "wf (s\<lparr>item_heap := (item_heap s)(listitem t \<mapsto> row\<lparr>bar := Some 0\<rparr>),
            task_heap := (task_heap s)(a \<mapsto> t\<lparr>status := QUEUED\<rparr>),
            m_current_task := None,
            is_busy := False,
            trace := trace s @ [ConverterStop]\<rparr>)" (is "wf ?s'")
proof -
  from assms(1) have t: "tasks_ok s" and c: "current_ok s" and r: "rows_ok s" by (simp_all add: wf_def)
  have "tasks_ok ?s'"
    by (rule tasks_ok_cong [OF _ _ t]) (simp_all add: tasks_ok_live [OF t])
  moreover have "rows_ok ?s'"
    by (rule rows_ok_cong [OF _ _ _ _ r]) (simp_all add: rows_ok_live [OF r] assms(3))
  moreover have "current_ok ?s'"
  proof (rule current_okI)
    fix b assume b: "b \<in> set (m_tasks ?s')" and run: "status_of ?s' b = Some RUNNING"
    from run have ne: "b \<noteq> a" by (auto simp: status_of_def)
    with run have sb: "status_of s b = Some RUNNING" by (simp add: status_of_def)
    from b have "b \<in> set (m_tasks s)" by simp
    then have "m_current_task s = Some b" using sb by (rule current_ok_running [OF c])
    with assms(2) ne show "m_current_task ?s' = Some b" by simp
  qed simp_all
  ultimately show ?thesis by (simp add: wf_def)
qed

lemma stop_wf_result:
  assumes "wf s"
  obtains s' where "stop s = Inr s'" "wf s'" "\<not> is_busy s'" "m_current_task s' = None"
    "m_tasks s' = m_tasks s" "trace s' = trace s @ [ConverterStop]" "prev_index s' = prev_index s"
    "top_level_items s' = top_level_items s"
proof (cases "m_current_task s")
  case None
  let ?s' = "s\<lparr>is_busy := False, trace := trace s @ [ConverterStop]\<rparr>"
  have "stop s = Inr ?s'" using None by (rule stop_None)
  moreover have "wf ?s'" using assms None by (rule wf_stop_None)
  ultimately show ?thesis using None by (intro that [of ?s']) simp_all
next
  case (Some a)
  with assms obtain t row where tr: "task_heap s a = Some t" "item_heap s (listitem t) = Some row"
    by (rule wf_current)
  have st: "stop s = Inr (s\<lparr>item_heap := (item_heap s)(listitem t \<mapsto> row\<lparr>bar := Some 0\<rparr>),
            task_heap := (task_heap s)(a \<mapsto> t\<lparr>status := QUEUED\<rparr>),
            m_current_task := None,
            is_busy := False,
            trace := trace s @ [ConverterStop]\<rparr>)" using Some tr by (rule stop_Some)
  show ?thesis by (rule that [OF st wf_stop_Some [OF assms Some tr]]) simp_all
qed

subsection \<open>The loop of \<^verbatim>\<open>start\<close>\<close>

declare start_loop.simps [simp del]

lemma set_take_nth:
  assumes "k \<le> length xs"
  shows "(\<forall>a \<in> set (take k xs). P a) \<longleftrightarrow> (\<forall>j<k. P (xs ! j))"
proof
  assume a: "\<forall>a \<in> set (take k xs). P a"
  show "\<forall>j<k. P (xs ! j)"
  proof (intro allI impI)
    fix j assume j: "j < k"
    with assms have "take k xs ! j \<in> set (take k xs)" by (intro nth_mem) simp
    with j have "xs ! j \<in> set (take k xs)" by simp
    with a show "P (xs ! j)" by blast
  qed
next
  assume a: "\<forall>j<k. P (xs ! j)"
  show "\<forall>a \<in> set (take k xs). P a"
  proof
    fix b assume "b \<in> set (take k xs)"
    then obtain j where "j < length (take k xs)" "take k xs ! j = b"
      by (auto simp: in_set_conv_nth)
    with assms have "j < k" "xs ! j = b" by simp_all
    with a show "P b" by blast
  qed
qed

lemma first_queued_iff:
  "first_queued s k \<longleftrightarrow>
     k < length (m_tasks s) \<and> status_of s (m_tasks s ! k) = Some QUEUED \<and>
     (\<forall>j < k. status_of s (m_tasks s ! j) \<noteq> Some QUEUED)"
proof (cases "k < length (m_tasks s)")
  case True
  then have "k \<le> length (m_tasks s)" by simp
  from set_take_nth [OF this, of "\<lambda>a. status_of s a \<noteq> Some QUEUED"]
  show ?thesis by (simp only: first_queued_def)
next
  case False
  then show ?thesis by (simp add: first_queued_def)
qed

lemma start_loop_hit:
  "i < n \<Longrightarrow> task_heap s (m_tasks s ! i) = Some t \<Longrightarrow> status t = QUEUED \<Longrightarrow>
   start_loop s i n = Inr (started s i t)"
  by (subst start_loop.simps) (simp add: started_def Let_def)

lemma start_loop_skip:
  "i < n \<Longrightarrow> task_heap s (m_tasks s ! i) = Some t \<Longrightarrow> status t \<noteq> QUEUED \<Longrightarrow>
   start_loop s i n = start_loop s (Suc i) n"
  by (subst start_loop.simps) (simp add: Let_def)

lemma start_loop_end:
  "\<not> i < n \<Longrightarrow>
   start_loop s i n =
     (case stop s of Inl e \<Rightarrow> Inl e | Inr s1 \<Rightarrow> Inr (s1\<lparr>trace := trace s1 @ [AllTasksFinished]\<rparr>))"
  by (subst start_loop.simps) simp

text \<open>
  The loop skips the tasks that are not \<^verbatim>\<open>QUEUED\<close> and launches the first that is; when
  there is none it falls through to \<^verbatim>\<open>stop\<close> and \<^verbatim>\<open>all_tasks_finished\<close>.
\<close>

lemma start_loop_found:
  assumes "tasks_ok s" "k < length (m_tasks s)" "n = length (m_tasks s)"
    and "task_heap s (m_tasks s ! k) = Some t" "status t = QUEUED"
    and "\<forall>j. i \<le> j \<and> j < k \<longrightarrow> status_of s (m_tasks s ! j) \<noteq> Some QUEUED"
    and "i \<le> k"
  shows "start_loop s i n = Inr (started s k t)"
  using assms(6,7)
proof (induction "k - i" arbitrary: i)
  case 0
  then have "i = k" by simp
  with assms(2-5) show ?case by (simp add: start_loop_hit)
next
  case (Suc d)
  then have lt: "i < k" by simp
  with assms(2) have "m_tasks s ! i \<in> set (m_tasks s)" by simp
  from tasks_ok_live [OF assms(1) this] obtain u where u: "task_heap s (m_tasks s ! i) = Some u"
    by blast
  from Suc.prems(1) lt have "status_of s (m_tasks s ! i) \<noteq> Some QUEUED" by simp
  with u have nq: "status u \<noteq> QUEUED" by (simp add: status_of_def)
  from lt assms(2,3) have "i < n" by simp
  then have "start_loop s i n = start_loop s (Suc i) n" using u nq by (rule start_loop_skip)
  also have "\<dots> = Inr (started s k t)"
  proof (rule Suc.hyps(1))
    show "d = k - Suc i" using Suc.hyps(2) by simp
    show "\<forall>j. Suc i \<le> j \<and> j < k \<longrightarrow> status_of s (m_tasks s ! j) \<noteq> Some QUEUED"
      using Suc.prems(1) by simp
    show "Suc i \<le> k" using lt by simp
  qed
  finally show ?case .
qed

lemma start_loop_none:
  assumes "tasks_ok s" "n = length (m_tasks s)"
    and "\<forall>j. i \<le> j \<and> j < n \<longrightarrow> status_of s (m_tasks s ! j) \<noteq> Some QUEUED"
  shows "start_loop s i n =
     (case stop s of Inl e \<Rightarrow> Inl e | Inr s1 \<Rightarrow> Inr (s1\<lparr>trace := trace s1 @ [AllTasksFinished]\<rparr>))"
  using assms(3)
proof (induction "n - i" arbitrary: i)
  case 0
  then have "\<not> i < n" by simp
  then show ?case by (rule start_loop_end)
next
  case (Suc d)
  then have lt: "i < n" by simp
  with assms(2) have "m_tasks s ! i \<in> set (m_tasks s)" by simp
  from tasks_ok_live [OF assms(1) this] obtain u where u: "task_heap s (m_tasks s ! i) = Some u"
    by blast
  from Suc.prems lt have "status_of s (m_tasks s ! i) \<noteq> Some QUEUED" by simp
  with u have nq: "status u \<noteq> QUEUED" by (simp add: status_of_def)
  from lt u nq have "start_loop s i n = start_loop s (Suc i) n" by (rule start_loop_skip)
  also have "\<dots> = (case stop s of Inl e \<Rightarrow> Inl e
                     | Inr s1 \<Rightarrow> Inr (s1\<lparr>trace := trace s1 @ [AllTasksFinished]\<rparr>))"
  proof (rule Suc.hyps(1))
    show "d = n - Suc i" using Suc.hyps(2) by simp
    show "\<forall>j. Suc i \<le> j \<and> j < n \<longrightarrow> status_of s (m_tasks s ! j) \<noteq> Some QUEUED"
      using Suc.prems by simp
  qed
  finally show ?case .
qed

lemma first_queued_exists:
  assumes "j < length (m_tasks s)" "status_of s (m_tasks s ! j) = Some QUEUED"
  shows "\<exists>k. first_queued s k"
proof -
  let ?P = "\<lambda>k. k < length (m_tasks s) \<and> status_of s (m_tasks s ! k) = Some QUEUED"
  from assms have "?P j" by simp
  then have "?P (LEAST k. ?P k)" by (rule LeastI)
  moreover have "\<forall>i < (LEAST k. ?P k). status_of s (m_tasks s ! i) \<noteq> Some QUEUED"
  proof (intro allI impI)
    fix i assume i: "i < (LEAST k. ?P k)"
    then have "\<not> ?P i" by (rule not_less_Least)
    moreover from i \<open>?P (LEAST k. ?P k)\<close> have "i < length (m_tasks s)" by simp
    ultimately show "status_of s (m_tasks s ! i) \<noteq> Some QUEUED" by simp
  qed
  ultimately show ?thesis unfolding first_queued_iff by blast
qed

lemma first_queued_unique: "first_queued s k \<Longrightarrow> first_queued s k' \<Longrightarrow> k = k'"
  unfolding first_queued_iff by (metis linorder_neqE_nat)

lemma start_busy: "is_busy s \<Longrightarrow> start s = Inr s"
  by (simp add: start_def)

lemma start_first_queued:
  assumes "tasks_ok s" "\<not> is_busy s" "first_queued s k" "task_heap s (m_tasks s ! k) = Some t"
  shows "start s = Inr (started s k t)"
proof -
  from assms(3) have k: "k < length (m_tasks s)" and q: "status_of s (m_tasks s ! k) = Some QUEUED"
    and b: "\<forall>j. 0 \<le> j \<and> j < k \<longrightarrow> status_of s (m_tasks s ! j) \<noteq> Some QUEUED"
    by (simp_all add: first_queued_iff)
  from q assms(4) have "status t = QUEUED" by (simp add: status_of_def)
  with assms(1) k refl assms(4) have "start_loop s 0 (length (m_tasks s)) = Inr (started s k t)"
    using b by (rule start_loop_found) simp
  with assms(2) k show ?thesis by (auto simp: start_def Let_def)
qed

lemma start_no_queued:
  assumes "tasks_ok s" "\<not> is_busy s" "m_tasks s \<noteq> []"
    and "\<forall>a \<in> set (m_tasks s). status_of s a \<noteq> Some QUEUED"
  shows "start s =
     (case stop s of Inl e \<Rightarrow> Inl e | Inr s1 \<Rightarrow> Inr (s1\<lparr>trace := trace s1 @ [AllTasksFinished]\<rparr>))"
proof -
  from assms(4) have "\<forall>j. 0 \<le> j \<and> j < length (m_tasks s) \<longrightarrow> status_of s (m_tasks s ! j) \<noteq> Some QUEUED"
    by simp
  with assms(1) refl have "start_loop s 0 (length (m_tasks s)) =
     (case stop s of Inl e \<Rightarrow> Inl e | Inr s1 \<Rightarrow> Inr (s1\<lparr>trace := trace s1 @ [AllTasksFinished]\<rparr>))"
    by (rule start_loop_none)
  with assms(2,3) show ?thesis by (simp add: start_def Let_def)
qed

lemma start_empty: "\<not> is_busy s \<Longrightarrow> m_tasks s = [] \<Longrightarrow> start s = stop s"
  by (simp add: start_def)

subsection \<open>\<^verbatim>\<open>start\<close> and \<^verbatim>\<open>task_finished_slot\<close> keep the invariant\<close>

lemma current_ok_trace: "current_ok (s\<lparr>trace := tr\<rparr>) = current_ok s"
proof
  assume c: "current_ok (s\<lparr>trace := tr\<rparr>)"
  show "current_ok s" by (rule current_ok_cong [OF _ _ _ _ c]) simp_all
next
  assume c: "current_ok s"
  show "current_ok (s\<lparr>trace := tr\<rparr>)" by (rule current_ok_cong [OF _ _ _ _ c]) simp_all
qed

lemma wf_trace [simp]: "wf (s\<lparr>trace := tr\<rparr>) = wf s"
  by (simp add: wf_def current_ok_trace) (simp add: tasks_ok_def rows_ok_def)

lemma wf_started:
  assumes "wf s" "\<not> is_busy s" "k < length (m_tasks s)" "task_heap s (m_tasks s ! k) = Some t"
  shows "wf (started s k t)"
proof -
  let ?a = "m_tasks s ! k"
  from assms(1) have t: "tasks_ok s" and c: "current_ok s" and r: "rows_ok s" by (simp_all add: wf_def)
  from assms(3) have a: "?a \<in> set (m_tasks s)" by simp
  have "tasks_ok (started s k t)"
    by (rule tasks_ok_cong [OF _ _ t]) (simp_all add: started_def tasks_ok_live [OF t])
  moreover have "rows_ok (started s k t)"
    by (rule rows_ok_cong [OF _ _ _ _ r]) (simp_all add: started_def rows_ok_live [OF r] assms(4))
  moreover have "current_ok (started s k t)"
  proof (rule current_okI)
    show "is_busy (started s k t) \<longleftrightarrow> m_current_task (started s k t) \<noteq> None"
      by (simp add: started_def)
  next
    fix b assume "m_current_task (started s k t) = Some b"
    then have "b = ?a" by (simp add: started_def)
    with a show "b \<in> set (m_tasks (started s k t)) \<and> status_of (started s k t) b = Some RUNNING"
      by (simp add: started_def status_of_def)
  next
    fix b assume b: "b \<in> set (m_tasks (started s k t))"
      and run: "status_of (started s k t) b = Some RUNNING"
    from b have bs: "b \<in> set (m_tasks s)" by (simp add: started_def)
    have "b = ?a"
    proof (rule ccontr)
      assume "b \<noteq> ?a"
      with run have "status_of s b = Some RUNNING" by (simp add: started_def status_of_def)
      with wf_not_busy_running [OF assms(1,2) bs] show False by simp
    qed
    then show "m_current_task (started s k t) = Some b" by (simp add: started_def)
  qed
  ultimately show ?thesis by (simp add: wf_def)
qed

lemma start_wf_result:
  assumes "wf s"
  obtains s' where "start s = Inr s'" "wf s'" "m_tasks s' = m_tasks s"
    "prev_index s' = prev_index s" "top_level_items s' = top_level_items s"
proof (cases "is_busy s")
  case True
  then have "start s = Inr s" by (rule start_busy)
  with assms show ?thesis by (intro that [of s]) simp_all
next
  case nb: False
  from assms have t: "tasks_ok s" by (simp add: wf_def)
  show ?thesis
  proof (cases "\<exists>a \<in> set (m_tasks s). status_of s a = Some QUEUED")
    case True
    then obtain j where "j < length (m_tasks s)" "status_of s (m_tasks s ! j) = Some QUEUED"
      by (auto simp: in_set_conv_nth)
    then obtain k where k: "first_queued s k" using first_queued_exists by blast
    then have kl: "k < length (m_tasks s)" by (simp add: first_queued_iff)
    then have "m_tasks s ! k \<in> set (m_tasks s)" by simp
    from tasks_ok_live [OF t this] obtain u where u: "task_heap s (m_tasks s ! k) = Some u" by blast
    from t nb k u have "start s = Inr (started s k u)" by (rule start_first_queued)
    moreover from assms nb kl u have "wf (started s k u)" by (rule wf_started)
    ultimately show ?thesis by (intro that [of "started s k u"]) (simp_all add: started_def)
  next
    case False
    then have nq: "\<forall>a \<in> set (m_tasks s). status_of s a \<noteq> Some QUEUED" by blast
    from assms obtain s1 where s1: "stop s = Inr s1" "wf s1" "m_tasks s1 = m_tasks s"
      "prev_index s1 = prev_index s" "top_level_items s1 = top_level_items s"
      by (rule stop_wf_result)
    show ?thesis
    proof (cases "m_tasks s = []")
      case True
      with nb have "start s = stop s" by (simp add: start_empty)
      with s1 show ?thesis by (intro that [of s1]) simp_all
    next
      case False
      from t nb False nq s1(1) have "start s = Inr (s1\<lparr>trace := trace s1 @ [AllTasksFinished]\<rparr>)"
        by (simp add: start_no_queued)
      with s1 show ?thesis by (intro that [of "s1\<lparr>trace := trace s1 @ [AllTasksFinished]\<rparr>"]) simp_all
    qed
  qed
qed

lemma task_finished_slot_None:
  "m_current_task s = None \<Longrightarrow> task_finished_slot s exitcode = Inr s"
  by (simp add: task_finished_slot_def)

lemma task_finished_slot_Some:
  "m_current_task s = Some a \<Longrightarrow> task_heap s a = Some t \<Longrightarrow> item_heap s (listitem t) = Some row \<Longrightarrow>
   task_finished_slot s exitcode = start (finished_mid s a t row exitcode)"
  by (simp add: task_finished_slot_def finished_mid_def show_failed_def Let_def)

lemma wf_finished_mid:
  assumes "wf s" "m_current_task s = Some a" "task_heap s a = Some t" "item_heap s (listitem t) = Some row"
  shows "wf (finished_mid s a t row exitcode)" (is "wf ?s'")
proof -
  from assms(1) have t: "tasks_ok s" and c: "current_ok s" and r: "rows_ok s" by (simp_all add: wf_def)
  have "tasks_ok ?s'"
    by (rule tasks_ok_cong [OF _ _ t]) (simp_all add: finished_mid_def tasks_ok_live [OF t])
  moreover have "rows_ok ?s'"
    by (rule rows_ok_cong [OF _ _ _ _ r]) (simp_all add: finished_mid_def rows_ok_live [OF r] assms(3))
  moreover have "current_ok ?s'"
  proof (rule current_okI)
    fix b assume b: "b \<in> set (m_tasks ?s')" and run: "status_of ?s' b = Some RUNNING"
    from run have ne: "b \<noteq> a" by (auto simp: finished_mid_def status_of_def split: if_splits)
    with run have sb: "status_of s b = Some RUNNING" by (simp add: finished_mid_def status_of_def)
    from b have "b \<in> set (m_tasks s)" by (simp add: finished_mid_def)
    then have "m_current_task s = Some b" using sb by (rule current_ok_running [OF c])
    with assms(2) ne show "m_current_task ?s' = Some b" by simp
  qed (simp_all add: finished_mid_def)
  ultimately show ?thesis by (simp add: wf_def)
qed

lemma task_finished_slot_wf_result:
  assumes "wf s"
  obtains s' where "task_finished_slot s exitcode = Inr s'" "wf s'" "m_tasks s' = m_tasks s"
    "prev_index s' = prev_index s" "top_level_items s' = top_level_items s"
proof (cases "m_current_task s")
  case None
  then have "task_finished_slot s exitcode = Inr s" by (rule task_finished_slot_None)
  with assms show ?thesis by (intro that [of s]) simp_all
next
  case (Some a)
  with assms obtain t row where tr: "task_heap s a = Some t" "item_heap s (listitem t) = Some row"
    by (rule wf_current)
  from Some tr have eq: "task_finished_slot s exitcode = start (finished_mid s a t row exitcode)"
    by (rule task_finished_slot_Some)
  from assms Some tr have "wf (finished_mid s a t row exitcode)" by (rule wf_finished_mid)
  then obtain s' where "start (finished_mid s a t row exitcode) = Inr s'" "wf s'"
    "m_tasks s' = m_tasks (finished_mid s a t row exitcode)"
    "prev_index s' = prev_index (finished_mid s a t row exitcode)"
    "top_level_items s' = top_level_items (finished_mid s a t row exitcode)"
    by (rule start_wf_result)
  with eq show ?thesis by (intro that [of s']) (simp_all add: finished_mid_def)
qed

subsection \<open>\<^verbatim>\<open>removeTask\<close>, and the invariant along a run\<close>

lemma rows_ok_length: "rows_ok s \<Longrightarrow> length (top_level_items s) = length (m_tasks s)"
  unfolding rows_ok_def by (metis length_map)

lemma removeTask_range:
  "index < 0 \<or> int (length (m_tasks s)) \<le> index \<Longrightarrow> removeTask s index = Inl IndexOutOfRange"
  by (simp add: removeTask_def)

lemma removeTask_running:
  "0 \<le> index \<Longrightarrow> index < int (length (m_tasks s)) \<Longrightarrow>
   task_heap s (m_tasks s ! nat index) = Some t \<Longrightarrow> status t = RUNNING \<Longrightarrow>
   removeTask s index = Inr s"
  by (simp add: removeTask_def Let_def)

lemma removeTask_removed:
  "0 \<le> index \<Longrightarrow> index < int (length (m_tasks s)) \<Longrightarrow>
   task_heap s (m_tasks s ! nat index) = Some t \<Longrightarrow> status t \<noteq> RUNNING \<Longrightarrow>
   length (top_level_items s) = length (m_tasks s) \<Longrightarrow>
   removeTask s index = Inr (removed s (nat index))"
  by (simp add: removeTask_def Let_def takeTopLevelItem_def removed_def)

lemma nth_notin_rest:
  assumes "distinct xs" "i < length xs"
  shows "xs ! i \<notin> set (take i xs @ drop (Suc i) xs)"
proof -
  from assms(2) have "xs = take i xs @ xs ! i # drop (Suc i) xs" by (rule id_take_nth_drop)
  then have "distinct (take i xs @ xs ! i # drop (Suc i) xs)" using assms(1) by simp
  then show ?thesis by auto
qed

lemma distinct_rest:
  assumes "distinct xs"
  shows "distinct (take i xs @ drop (Suc i) xs)"
proof (cases "i < length xs")
  case True
  then have "xs = take i xs @ xs ! i # drop (Suc i) xs" by (rule id_take_nth_drop)
  then have "distinct (take i xs @ xs ! i # drop (Suc i) xs)" using assms by simp
  then show ?thesis by auto
next
  case False
  with assms show ?thesis by simp
qed

lemma set_rest: "b \<in> set (take i xs @ drop (Suc i) xs) \<Longrightarrow> b \<in> set xs"
  by (auto dest: in_set_takeD in_set_dropD)

lemma in_rest:
  assumes "b \<in> set xs" "i < length xs" "b \<noteq> xs ! i"
  shows "b \<in> set (take i xs @ drop (Suc i) xs)"
proof -
  from assms(2) have "xs = take i xs @ xs ! i # drop (Suc i) xs" by (rule id_take_nth_drop)
  then have "set xs = set (take i xs @ xs ! i # drop (Suc i) xs)" by simp
  with assms(1,3) show ?thesis by auto
qed

lemma wf_removed:
  assumes "wf s" "i < length (m_tasks s)" "status_of s (m_tasks s ! i) \<noteq> Some RUNNING"
  shows "wf (removed s i)"
proof -
  let ?a = "m_tasks s ! i" and ?xs = "m_tasks s" and ?tl = "top_level_items s"
  let ?f = "\<lambda>a. listitem (the (task_heap s a))"
  from assms(1) have t: "tasks_ok s" and c: "current_ok s" and r: "rows_ok s" by (simp_all add: wf_def)
  from t have d: "distinct ?xs" by (simp add: tasks_ok_def)
  from r have m: "map ?f ?xs = ?tl" and dt: "distinct ?tl" by (simp_all add: rows_ok_def)
  from rows_ok_length [OF r] assms(2) have il: "i < length ?tl" by simp
  have na: "b \<noteq> ?a" if "b \<in> set (take i ?xs @ drop (Suc i) ?xs)" for b
    using nth_notin_rest [OF d assms(2)] that by blast
  have ni: "j \<noteq> ?tl ! i" if "j \<in> set (take i ?tl @ drop (Suc i) ?tl)" for j
    using nth_notin_rest [OF dt il] that by blast
  have "tasks_ok (removed s i)"
    unfolding tasks_ok_def
  proof (intro conjI ballI)
    show "distinct (m_tasks (removed s i))" using distinct_rest [OF d] by (simp add: removed_def)
  next
    fix b assume "b \<in> set (m_tasks (removed s i))"
    then have b: "b \<in> set (take i ?xs @ drop (Suc i) ?xs)" by (simp add: removed_def)
    from tasks_ok_live [OF t set_rest [OF b]] na [OF b]
    show "task_heap (removed s i) b \<noteq> None" by (simp add: removed_def)
  qed
  moreover have "rows_ok (removed s i)"
    unfolding rows_ok_def
  proof (intro conjI ballI)
    have "map (\<lambda>a. listitem (the (task_heap (removed s i) a))) (take i ?xs @ drop (Suc i) ?xs)
        = map ?f (take i ?xs @ drop (Suc i) ?xs)"
      using na by (intro map_cong) (auto simp: removed_def)
    also have "\<dots> = take i (map ?f ?xs) @ drop (Suc i) (map ?f ?xs)"
      by (simp add: take_map drop_map)
    finally show "map (\<lambda>a. listitem (the (task_heap (removed s i) a))) (m_tasks (removed s i))
        = top_level_items (removed s i)"
      by (simp add: removed_def m)
  next
    show "distinct (top_level_items (removed s i))"
      using distinct_rest [OF dt] by (simp add: removed_def)
  next
    fix j assume "j \<in> set (top_level_items (removed s i))"
    then have j: "j \<in> set (take i ?tl @ drop (Suc i) ?tl)" by (simp add: removed_def)
    from rows_ok_live [OF r set_rest [OF j]] ni [OF j]
    show "item_heap (removed s i) j \<noteq> None" by (simp add: removed_def)
  qed
  moreover have "current_ok (removed s i)"
  proof (rule current_okI)
    show "is_busy (removed s i) \<longleftrightarrow> m_current_task (removed s i) \<noteq> None"
      using current_ok_busy [OF c] by (simp add: removed_def)
  next
    fix b assume "m_current_task (removed s i) = Some b"
    then have cb: "m_current_task s = Some b" by (simp add: removed_def)
    from current_ok_current [OF c cb] have b: "b \<in> set ?xs" and run: "status_of s b = Some RUNNING"
      by blast+
    from run assms(3) have ne: "b \<noteq> ?a" by auto
    from in_rest [OF b assms(2) ne] run ne
    show "b \<in> set (m_tasks (removed s i)) \<and> status_of (removed s i) b = Some RUNNING"
      by (simp add: removed_def status_of_def)
  next
    fix b assume "b \<in> set (m_tasks (removed s i))" and run: "status_of (removed s i) b = Some RUNNING"
    then have b: "b \<in> set (take i ?xs @ drop (Suc i) ?xs)" by (simp add: removed_def)
    from run na [OF b] have "status_of s b = Some RUNNING" by (simp add: removed_def status_of_def)
    with set_rest [OF b] have "m_current_task s = Some b" by (rule current_ok_running [OF c])
    then show "m_current_task (removed s i) = Some b" by (simp add: removed_def)
  qed
  ultimately show ?thesis by (simp add: wf_def)
qed

lemma wf_removeTask:
  assumes "wf s" "removeTask s index = Inr s'"
  shows "wf s'"
proof -
  from assms(2) have rng: "0 \<le> index" "index < int (length (m_tasks s))"
    by (auto simp: removeTask_def split: if_splits)
  then have i: "nat index < length (m_tasks s)" by simp
  from assms(1) have t: "tasks_ok s" and r: "rows_ok s" by (simp_all add: wf_def)
  from i have "m_tasks s ! nat index \<in> set (m_tasks s)" by simp
  from tasks_ok_live [OF t this] obtain u where u: "task_heap s (m_tasks s ! nat index) = Some u"
    by blast
  show ?thesis
  proof (cases "status u = RUNNING")
    case True
    with rng u have "removeTask s index = Inr s" by (simp add: removeTask_running)
    with assms show ?thesis by simp
  next
    case False
    with rng u rows_ok_length [OF r] have "removeTask s index = Inr (removed s (nat index))"
      by (simp add: removeTask_removed)
    moreover from False u have "status_of s (m_tasks s ! nat index) \<noteq> Some RUNNING"
      by (simp add: status_of_def)
    with assms(1) i have "wf (removed s (nat index))" by (rule wf_removed)
    ultimately show ?thesis using assms(2) by simp
  qed
qed

lemma wf_addTask:
  assumes "wf s" "task_heap s ta = None" "item_heap s ia = None"
  shows "wf (snd (addTask s p probe ta ia))"
  using assms tasks_ok_addTask current_ok_addTask rows_ok_addTask by (simp add: wf_def)

lemma wf_exec:
  assumes "wf s" "exec s x = Inr s'"
  shows "wf s'"
proof (cases x)
  case (AddTask p probe ta ia)
  with assms(2) have "task_heap s ta = None" "item_heap s ia = None" "s' = snd (addTask s p probe ta ia)"
    by (auto split: if_splits)
  with assms(1) show ?thesis by (simp add: wf_addTask)
next
  case (RemoveTask index)
  with assms show ?thesis by (simp add: wf_removeTask)
next
  case Start
  from assms(1) obtain s1 where "start s = Inr s1" "wf s1" by (rule start_wf_result)
  with Start assms(2) show ?thesis by simp
next
  case Stop
  from assms(1) obtain s1 where "stop s = Inr s1" "wf s1" by (rule stop_wf_result)
  with Stop assms(2) show ?thesis by simp
next
  case (OnProgress p)
  with assms show ?thesis by (simp add: wf_progress_refreshed)
next
  case (OnFinished c)
  from assms(1) obtain s1 where "task_finished_slot s c = Inr s1" "wf s1"
    by (rule task_finished_slot_wf_result)
  with OnFinished assms(2) show ?thesis by simp
qed

text \<open>
  In a state that satisfies the invariant an operation fails only through an index out
  of range.
\<close>

lemma exec_error_cases:
  assumes "wf s" "exec s x = Inl e"
  shows "(\<exists>index. x = RemoveTask index \<and> (index < 0 \<or> int (length (m_tasks s)) \<le> index) \<and>
            e = IndexOutOfRange) \<or>
         (\<exists>p probe ta ia. x = AddTask p probe ta ia \<and>
            (task_heap s ta \<noteq> None \<or> item_heap s ia \<noteq> None) \<and> e = AddressInUse)"
proof (cases x)
  case (AddTask p probe ta ia)
  with assms(2) show ?thesis by (auto split: if_splits)
next
  case (RemoveTask index)
  with assms(2) have r: "removeTask s index = Inl e" by simp
  have "index < 0 \<or> int (length (m_tasks s)) \<le> index"
  proof (rule ccontr)
    assume "\<not> (index < 0 \<or> int (length (m_tasks s)) \<le> index)"
    then have rng: "0 \<le> index" "index < int (length (m_tasks s))" by simp_all
    then have "m_tasks s ! nat index \<in> set (m_tasks s)" by simp
    moreover from assms(1) have "tasks_ok s" by (simp add: wf_def)
    ultimately obtain u where "task_heap s (m_tasks s ! nat index) = Some u"
      using tasks_ok_live by blast
    with rng have "\<exists>s'. removeTask s index = Inr s'" by (simp add: removeTask_def Let_def)
    with r show False by simp
  qed
  moreover from this r have "e = IndexOutOfRange" by (simp add: removeTask_range)
  ultimately show ?thesis using RemoveTask by blast
next
  case Start
  from assms(1) obtain s1 where "start s = Inr s1" by (rule start_wf_result)
  with Start assms(2) show ?thesis by simp
next
  case Stop
  from assms(1) obtain s1 where "stop s = Inr s1" by (rule stop_wf_result)
  with Stop assms(2) show ?thesis by simp
next
  case (OnProgress p)
  from progress_refreshed_total [OF assms(1), of p] OnProgress assms(2) show ?thesis by auto
next
  case (OnFinished c)
  from assms(1) obtain s1 where "task_finished_slot s c = Inr s1"
    by (rule task_finished_slot_wf_result)
  with OnFinished assms(2) show ?thesis by simp
qed

text \<open>
  Every state that a sequence of operations reaches from the constructor satisfies the
  invariant.
\<close>

lemma wf_run:
  assumes "wf s" "run s xs = Inr s'"
  shows "wf s'"
  using assms
proof (induction xs arbitrary: s)
  case Nil
  then show ?case by simp
next
  case (Cons x xs)
  from Cons.prems(2) obtain s1 where s1: "exec s x = Inr s1" "run s1 xs = Inr s'"
    by (auto split: sum.splits)
  from Cons.prems(1) s1(1) have "wf s1" by (rule wf_exec)
  then show ?case using s1(2) by (rule Cons.IH)
qed

lemma filter_eq_singleton:
  "distinct xs \<Longrightarrow> a \<in> set xs \<Longrightarrow> filter (\<lambda>b. b = a) xs = [a]"
proof (induction xs)
  case Nil
  then show ?case by simp
next
  case (Cons x xs)
  show ?case
  proof (cases "x = a")
    case True
    with Cons.prems have "a \<notin> set xs" by simp
    then have "filter (\<lambda>b. b = a) xs = []" by (auto simp: filter_empty_conv)
    with True show ?thesis by simp
  next
    case False
    with Cons show ?thesis by simp
  qed
qed

lemma running_count_wf:
  assumes "wf s"
  shows "running_count s = (if m_current_task s = None then 0 else 1)"
proof -
  from assms have t: "tasks_ok s" and c: "current_ok s" by (simp_all add: wf_def)
  from t have d: "distinct (m_tasks s)" by (simp add: tasks_ok_def)
  show ?thesis
  proof (cases "m_current_task s")
    case None
    have "filter (\<lambda>a. status_of s a = Some RUNNING) (m_tasks s) = []"
      using current_ok_running [OF c] None by (auto simp: filter_empty_conv)
    with None show ?thesis by (simp add: running_count_def)
  next
    case (Some a)
    from current_ok_current [OF c Some] have a: "a \<in> set (m_tasks s)" "status_of s a = Some RUNNING"
      by blast+
    have "filter (\<lambda>b. status_of s b = Some RUNNING) (m_tasks s) = filter (\<lambda>b. b = a) (m_tasks s)"
    proof (rule filter_cong [OF refl])
      fix b assume b: "b \<in> set (m_tasks s)"
      show "(status_of s b = Some RUNNING) = (b = a)"
      proof
        assume "status_of s b = Some RUNNING"
        with b have "m_current_task s = Some b" by (rule current_ok_running [OF c])
        with Some show "b = a" by simp
      next
        assume "b = a"
        with a(2) show "status_of s b = Some RUNNING" by simp
      qed
    qed
    also have "\<dots> = [a]"
      using d a(1) by (rule filter_eq_singleton)
    finally show ?thesis using Some by (simp add: running_count_def)
  qed
qed

subsection \<open>What \<^verbatim>\<open>start\<close> does when nothing runs\<close>

lemma setText_nth: "setText c txt vs ! c = txt"
  by (simp add: setText_def nth_append)

lemma start_idle_cases:
  assumes "wf s" "\<not> is_busy s"
  shows "(\<exists>k u. first_queued s k \<and> task_heap s (m_tasks s ! k) = Some u \<and>
            start s = Inr (started s k u)) \<or>
         ((\<forall>a \<in> set (m_tasks s). status_of s a \<noteq> Some QUEUED) \<and>
            start s = Inr (s\<lparr>is_busy := False,
                            trace := trace s @ (if m_tasks s = [] then [ConverterStop]
                                                else [ConverterStop, AllTasksFinished])\<rparr>))"
proof (cases "\<exists>a \<in> set (m_tasks s). status_of s a = Some QUEUED")
  case True
  from assms(1) have t: "tasks_ok s" by (simp add: wf_def)
  from True obtain j where "j < length (m_tasks s)" "status_of s (m_tasks s ! j) = Some QUEUED"
    by (auto simp: in_set_conv_nth)
  then obtain k where k: "first_queued s k" using first_queued_exists by blast
  then have "k < length (m_tasks s)" by (simp add: first_queued_iff)
  then have "m_tasks s ! k \<in> set (m_tasks s)" by simp
  from tasks_ok_live [OF t this] obtain u where u: "task_heap s (m_tasks s ! k) = Some u" by blast
  from t assms(2) k u have "start s = Inr (started s k u)" by (rule start_first_queued)
  with k u show ?thesis by blast
next
  case False
  from assms(1) have t: "tasks_ok s" by (simp add: wf_def)
  from False have nq: "\<forall>a \<in> set (m_tasks s). status_of s a \<noteq> Some QUEUED" by blast
  from wf_not_busy [OF assms] have st: "stop s = Inr (s\<lparr>is_busy := False, trace := trace s @ [ConverterStop]\<rparr>)"
    by (rule stop_None)
  have "start s = Inr (s\<lparr>is_busy := False,
                            trace := trace s @ (if m_tasks s = [] then [ConverterStop]
                                                else [ConverterStop, AllTasksFinished])\<rparr>)"
  proof (cases "m_tasks s = []")
    case True
    with assms(2) st show ?thesis by (simp add: start_empty)
  next
    case False
    with t assms(2) nq st show ?thesis by (simp add: start_no_queued)
  qed
  with nq show ?thesis by blast
qed

subsection \<open>The example run\<close>

lemmas eval_simps =
  scenario_def ConvertList_init_def addTask_def Let_def addTopLevelItem_def
  probe_ok_def probe_failed_def start_def start_loop.simps stop_def progress_refreshed_def
  task_finished_slot_def show_failed_def setText_def m_progress_column_index_def
  removeTask_def takeTopLevelItem_def

lemma run_scenario: "run ConvertList_init scenario = Inr after_scenario"
  by (simp add: after_scenario_def eval_simps)

lemma after_scenario_fields:
  "m_tasks after_scenario = [10, 20]"
  "top_level_items after_scenario = [11, 21]"
  "m_current_task after_scenario = Some 10"
  "is_busy after_scenario"
  "prev_index after_scenario = 2"
  "task_heap after_scenario 10 = Some \<lparr>id_no = 1, param = params_A, status = RUNNING, listitem = 11\<rparr>"
  "task_heap after_scenario 20 = Some \<lparr>id_no = 2, param = params_B, status = QUEUED, listitem = 21\<rparr>"
  by (simp_all add: after_scenario_def eval_simps)

lemma wf_after_scenario: "wf after_scenario"
  using wf_init run_scenario by (rule wf_run)

lemma run_queued_two:
  "run ConvertList_init [AddTask params_A probe_ok 10 11, AddTask params_B probe_ok 20 21] = Inr queued_two"
  by (simp add: queued_two_def eval_simps)

lemma wf_queued_two: "wf queued_two"
  using wf_init run_queued_two by (rule wf_run)

lemma queued_two_fields:
  "m_tasks queued_two = [10, 20]"
  "m_current_task queued_two = None"
  "\<not> is_busy queued_two"
  "task_heap queued_two 10 = Some \<lparr>id_no = 1, param = params_A, status = QUEUED, listitem = 11\<rparr>"
  "task_heap queued_two 20 = Some \<lparr>id_no = 2, param = params_B, status = QUEUED, listitem = 21\<rparr>"
  "trace queued_two = [ProbeStart (source params_A), ProbeStart (source params_B)]"
  by (simp_all add: queued_two_def eval_simps)

lemma run_drained: "run ConvertList_init (scenario @ [OnFinished 0, OnFinished 1]) = Inr drained"
  by (simp add: drained_def eval_simps)

lemma wf_drained: "wf drained"
  using wf_init run_drained by (rule wf_run)

lemma drained_fields:
  "m_tasks drained = [10, 20]"
  "m_current_task drained = None"
  "\<not> is_busy drained"
  "task_heap drained 10 = Some \<lparr>id_no = 1, param = params_A, status = FINISHED, listitem = 11\<rparr>"
  "task_heap drained 20 = Some \<lparr>id_no = 2, param = params_B, status = FAILED, listitem = 21\<rparr>"
  "trace drained = [ProbeStart (source params_A), ProbeStart (source params_B),
      ConverterStart params_A, StartConversion 0 params_A, TaskFinished 0,
      ConverterStart params_B, StartConversion 1 params_B, TaskFinished 1,
      ConverterStop, AllTasksFinished]"
  by (simp_all add: drained_def eval_simps)

subsection \<open>Status changes of one step\<close>

lemma start_idle_result:
  assumes "wf s" "\<not> is_busy s"
  obtains s' rest where "start s = Inr s'" "trace s' = trace s @ rest"
    "\<And>x. TaskFinished x \<notin> set rest" "item_heap s' = item_heap s"
    "\<And>a t. task_heap s a = Some t \<Longrightarrow> status t \<noteq> QUEUED \<Longrightarrow> task_heap s' a = Some t"
    "\<And>a t t'. task_heap s a = Some t \<Longrightarrow> task_heap s' a = Some t' \<Longrightarrow>
        t' = t \<or> status t = QUEUED \<and> status t' = RUNNING"
proof -
  from start_idle_cases [OF assms] consider
    (hit) k u where "first_queued s k" "task_heap s (m_tasks s ! k) = Some u" "start s = Inr (started s k u)"
  | (none) "start s = Inr (s\<lparr>is_busy := False,
                            trace := trace s @ (if m_tasks s = [] then [ConverterStop]
                                                else [ConverterStop, AllTasksFinished])\<rparr>)"
    by blast
  then show thesis
  proof cases
    case hit
    from hit(1,2) have q: "status u = QUEUED" by (simp add: first_queued_iff status_of_def)
    show ?thesis
    proof (rule that [of "started s k u" "[ConverterStart (param u), StartConversion k (param u)]"])
      show "start s = Inr (started s k u)" by (rule hit(3))
      show "trace (started s k u) = trace s @ [ConverterStart (param u), StartConversion k (param u)]"
        by (simp add: started_def)
      show "TaskFinished x \<notin> set [ConverterStart (param u), StartConversion k (param u)]" for x
        by simp
      show "item_heap (started s k u) = item_heap s" by (simp add: started_def)
      show "task_heap (started s k u) a = Some t" if "task_heap s a = Some t" "status t \<noteq> QUEUED" for a t
        using that hit(2) q by (auto simp: started_def)
      show "t' = t \<or> status t = QUEUED \<and> status t' = RUNNING"
        if "task_heap s a = Some t" "task_heap (started s k u) a = Some t'" for a t t'
        using that hit(2) q by (auto simp: started_def split: if_splits)
    qed
  next
    case none
    show ?thesis
    proof (rule that [OF none, of "if m_tasks s = [] then [ConverterStop] else [ConverterStop, AllTasksFinished]"])
    qed simp_all
  qed
qed

lemma step_status:
  assumes "wf s" "exec s x = Inr s'" "task_heap s a = Some t" "task_heap s' a = Some t'"
  shows "status t' = status t \<or> edge x (status t) (status t')"
proof (cases x)
  case (AddTask p probe ta ia)
  with assms(2) have f: "task_heap s ta = None" and s': "s' = snd (addTask s p probe ta ia)"
    by (auto split: if_splits)
  from f assms(3) have "a \<noteq> ta" by auto
  with s' assms(3,4) have "t' = t"
    by (cases "\<not> wait_ok probe \<or> probe_error probe") (auto simp: addTask_fail addTask_ok)
  then show ?thesis by simp
next
  case (RemoveTask index)
  with assms(2) have r: "removeTask s index = Inr s'" by simp
  then have "task_heap s' = task_heap s \<or> task_heap s' = (task_heap s)(m_tasks s ! nat index := None)"
    by (auto simp: removeTask_def Let_def takeTopLevelItem_def split: if_splits option.splits)
  with assms(3,4) have "t' = t" by (auto split: if_splits)
  then show ?thesis by simp
next
  case Start
  with assms(2) have st: "start s = Inr s'" by simp
  show ?thesis
  proof (cases "is_busy s")
    case True
    with st assms(3,4) show ?thesis by (simp add: start_busy)
  next
    case False
    with assms(1) obtain s1 where "start s = Inr s1"
      and e: "\<And>a t t'. task_heap s a = Some t \<Longrightarrow> task_heap s1 a = Some t' \<Longrightarrow>
        t' = t \<or> status t = QUEUED \<and> status t' = RUNNING"
      by (rule start_idle_result) blast
    with st have "s1 = s'" by simp
    with e [OF assms(3)] assms(4) Start show ?thesis by auto
  qed
next
  case Stop
  with assms(2) have st: "stop s = Inr s'" by simp
  show ?thesis
  proof (cases "m_current_task s")
    case None
    with st assms(3,4) show ?thesis by (auto simp: stop_None)
  next
    case (Some c)
    with assms(1) obtain u row where u: "task_heap s c = Some u" "item_heap s (listitem u) = Some row"
      and ru: "status u = RUNNING"
      by (rule wf_current)
    from st stop_Some [OF Some u] have "task_heap s' = (task_heap s)(c \<mapsto> u\<lparr>status := QUEUED\<rparr>)"
      by auto
    with assms(3,4) u ru Stop show ?thesis by (auto split: if_splits)
  qed
next
  case (OnProgress p)
  with assms(2) have "task_heap s' = task_heap s"
    by (auto simp: progress_refreshed_def split: option.splits)
  with assms(3,4) show ?thesis by simp
next
  case (OnFinished c)
  with assms(2) have f: "task_finished_slot s c = Inr s'" by simp
  show ?thesis
  proof (cases "m_current_task s")
    case None
    with f assms(3,4) show ?thesis by (simp add: task_finished_slot_None)
  next
    case (Some cur)
    with assms(1) obtain u row where u: "task_heap s cur = Some u" "item_heap s (listitem u) = Some row"
      and ru: "status u = RUNNING"
      by (rule wf_current)
    let ?mid = "finished_mid s cur u row c"
    from f task_finished_slot_Some [OF Some u] have st: "start ?mid = Inr s'" by simp
    from assms(1) Some u have wm: "wf ?mid" by (rule wf_finished_mid)
    have nb: "\<not> is_busy ?mid" by (simp add: finished_mid_def)
    from wm nb obtain s1 where "start ?mid = Inr s1"
      and e: "\<And>a t t'. task_heap ?mid a = Some t \<Longrightarrow> task_heap s1 a = Some t' \<Longrightarrow>
        t' = t \<or> status t = QUEUED \<and> status t' = RUNNING"
      by (rule start_idle_result) blast
    with st have s1: "s1 = s'" by simp
    show ?thesis
    proof (cases "a = cur")
      case True
      then have "task_heap ?mid a = Some (u\<lparr>status := (if c = 0 then FINISHED else FAILED)\<rparr>)"
        by (simp add: finished_mid_def)
      from e [OF this] assms(4) s1 have "status t' = (if c = 0 then FINISHED else FAILED)"
        by (auto split: if_splits)
      with True assms(3) u ru OnFinished show ?thesis by simp
    next
      case False
      with assms(3) have "task_heap ?mid a = Some t" by (simp add: finished_mid_def)
      from e [OF this] assms(4) s1 OnFinished show ?thesis by auto
    qed
  qed
qed

lemma terminal_kept:
  assumes "wf s" "task_heap s a = Some t" "status t = FINISHED \<or> status t = FAILED"
    and "run s xs = Inr fin" "kept a s xs"
  shows "status_of fin a = Some (status t)"
  using assms
proof (induction xs arbitrary: s t)
  case Nil
  then show ?case by (simp add: status_of_def)
next
  case (Cons x xs)
  from Cons.prems(4) obtain s1 where s1: "exec s x = Inr s1" "run s1 xs = Inr fin"
    by (auto split: sum.splits)
  with Cons.prems(5) obtain t1 where t1: "task_heap s1 a = Some t1" and k: "kept a s1 xs"
    by auto
  from step_status [OF Cons.prems(1) s1(1) Cons.prems(2) t1] Cons.prems(3)
  have e: "status t1 = status t" by (cases x) auto
  from Cons.prems(1) s1(1) have "wf s1" by (rule wf_exec)
  from Cons.IH [OF this t1 _ s1(2) k] Cons.prems(3) e show ?case by simp
qed

subsection \<open>The ids of a run\<close>





lemma run_after_success: "run ConvertList_init (scenario @ [OnFinished 0]) = Inr after_success"
  by (simp add: after_success_def eval_simps)

lemma exec_after_scenario: "exec after_scenario (OnFinished 0) = Inr after_success"
  by (simp add: after_success_def after_scenario_def eval_simps)

lemma after_success_fields:
  "task_heap after_success 10 = Some \<lparr>id_no = 1, param = params_A, status = FINISHED, listitem = 11\<rparr>"
  "task_heap after_success 20 = Some \<lparr>id_no = 2, param = params_B, status = RUNNING, listitem = 21\<rparr>"
  "m_current_task after_success = Some 20"
  by (simp_all add: after_success_def eval_simps)

lemma kept_scenario_tail: "kept 10 after_success [OnFinished 1, Start, Stop]"
  by (simp add: after_success_def eval_simps)

lemma run_scenario_tail: "\<not> isl (run after_success [OnFinished 1, Start, Stop])"
  by (simp add: after_success_def eval_simps)


subsection \<open>Rounds of adding and removing\<close>







section \<open>The claims\<close>

subsection \<open>C1\<close>

text \<open>
  Claim C1. In every state that a sequence of \<^verbatim>\<open>addTask\<close>, \<^verbatim>\<open>removeTask\<close>, \<^verbatim>\<open>start\<close>,
  \<^verbatim>\<open>stop\<close>, progress and completion events reaches from the constructor, at most one
  listed task is \<^verbatim>\<open>RUNNING\<close>; \<^verbatim>\<open>isBusy()\<close> is true exactly when one is; and
  \<^verbatim>\<open>m_current_task\<close> is non-null exactly when one is, and then it points to that task.
  The sequences are those in
  which every \<^verbatim>\<open>removeTask\<close> is given an index of the vector, as its precondition asks;
  nothing else can fail in such a state.
\<close>

theorem C1_at_most_one_running:
  assumes "run ConvertList_init ops = Inr s"
  shows "running_count s \<le> 1 \<and> (isBusy s \<longleftrightarrow> running_count s = 1) \<and>
         (m_current_task s \<noteq> None \<longleftrightarrow> running_count s = 1) \<and>
         (\<forall>a \<in> set (m_tasks s). status_of s a = Some RUNNING \<longleftrightarrow> m_current_task s = Some a)"
proof -
  from wf_init assms have w: "wf s" by (rule wf_run)
  then have c: "current_ok s" by (simp add: wf_def)
  have "status_of s a = Some RUNNING \<longleftrightarrow> m_current_task s = Some a"
    if "a \<in> set (m_tasks s)" for a
    using current_ok_running [OF c that] current_ok_current [OF c, of a] by blast
  with current_ok_busy [OF c] running_count_wf [OF w] show ?thesis
    by (simp add: isBusy_def)
qed

text \<open>
  In the example, after the two additions and \<^verbatim>\<open>start\<close>, exactly one task runs.
\<close>

theorem C1_witness:
  "run ConvertList_init scenario = Inr after_scenario \<and>
   running_count after_scenario = 1 \<and> isBusy after_scenario \<and>
   m_current_task after_scenario = Some 10 \<and> status_of after_scenario 10 = Some RUNNING"
proof -
  have "status_of after_scenario 10 = Some RUNNING"
    by (simp add: status_of_def after_scenario_fields)
  with C1_at_most_one_running [OF run_scenario] run_scenario show ?thesis
    by (simp add: after_scenario_fields)
qed

subsection \<open>C2\<close>

text \<open>
  Claim C2. \<^verbatim>\<open>task_finished_slot(exitcode)\<close> does nothing when there is no current task.
  With a current task \<open>a\<close> it reaches the call of \<^verbatim>\<open>start\<close> in a state \<open>mid\<close> where \<open>a\<close> is
  \<^verbatim>\<open>FINISHED\<close> for exit code 0 and \<^verbatim>\<open>FAILED\<close> otherwise, no other task has changed, the
  current task is null, the busy flag is false and \<^verbatim>\<open>task_finished(exitcode)\<close> is the one
  signal emitted; the result is what \<^verbatim>\<open>start\<close> returns from \<open>mid\<close>, which emits no further
  \<^verbatim>\<open>task_finished\<close> and leaves \<open>a\<close> as it is. After a failure the bar of the row of \<open>a\<close> is
  at 0 and its progress column reads \<^verbatim>\<open>Failed\<close>.
\<close>

theorem C2_onFinished:
  assumes "wf s"
  shows "(m_current_task s = None \<longrightarrow> task_finished_slot s exitcode = Inr s) \<and>
         (\<forall>a t. m_current_task s = Some a \<and> task_heap s a = Some t \<longrightarrow>
            (\<exists>mid s' rest row.
               task_finished_slot s exitcode = Inr s' \<and> start mid = Inr s' \<and>
               status_of mid a = Some (if exitcode = 0 then FINISHED else FAILED) \<and>
               (\<forall>b. b \<noteq> a \<longrightarrow> task_heap mid b = task_heap s b) \<and>
               m_current_task mid = None \<and> \<not> is_busy mid \<and>
               trace mid = trace s @ [TaskFinished exitcode] \<and>
               trace s' = trace s @ TaskFinished exitcode # rest \<and>
               (\<forall>x. TaskFinished x \<notin> set rest) \<and>
               status_of s' a = Some (if exitcode = 0 then FINISHED else FAILED) \<and>
               item_heap s' (listitem t) = Some row \<and>
               (exitcode \<noteq> 0 \<longrightarrow>
                  bar row = Some 0 \<and> texts row ! m_progress_column_index = ''Failed'')))"
proof (intro conjI allI impI)
  assume "m_current_task s = None"
  then show "task_finished_slot s exitcode = Inr s" by (rule task_finished_slot_None)
next
  fix a t assume "m_current_task s = Some a \<and> task_heap s a = Some t"
  then have c: "m_current_task s = Some a" and t: "task_heap s a = Some t" by blast+
  from assms c obtain t0 row0 where "task_heap s a = Some t0" "item_heap s (listitem t0) = Some row0"
    by (rule wf_current)
  with t have row0: "item_heap s (listitem t) = Some row0" by simp
  let ?mid = "finished_mid s a t row0 exitcode"
  let ?st = "if exitcode = 0 then FINISHED else FAILED"
  from c t row0 have eq: "task_finished_slot s exitcode = start ?mid" by (rule task_finished_slot_Some)
  from assms c t row0 have wm: "wf ?mid" by (rule wf_finished_mid)
  have nb: "\<not> is_busy ?mid" by (simp add: finished_mid_def)
  have ma: "task_heap ?mid a = Some (t\<lparr>status := ?st\<rparr>)" by (simp add: finished_mid_def)
  from wm nb obtain s' rest where s': "start ?mid = Inr s'" "trace s' = trace ?mid @ rest"
    "\<And>x. TaskFinished x \<notin> set rest" "item_heap s' = item_heap ?mid"
    "\<And>a t. task_heap ?mid a = Some t \<Longrightarrow> status t \<noteq> QUEUED \<Longrightarrow> task_heap s' a = Some t"
    by (rule start_idle_result) blast
  from s'(5) [OF ma] have sa: "task_heap s' a = Some (t\<lparr>status := ?st\<rparr>)" by simp
  let ?row = "if exitcode \<noteq> 0
              then row0\<lparr>bar := Some 0, texts := setText m_progress_column_index ''Failed'' (texts row0)\<rparr>
              else row0"
  have "task_finished_slot s exitcode = Inr s' \<and> start ?mid = Inr s' \<and>
               status_of ?mid a = Some ?st \<and>
               (\<forall>b. b \<noteq> a \<longrightarrow> task_heap ?mid b = task_heap s b) \<and>
               m_current_task ?mid = None \<and> \<not> is_busy ?mid \<and>
               trace ?mid = trace s @ [TaskFinished exitcode] \<and>
               trace s' = trace s @ TaskFinished exitcode # rest \<and>
               (\<forall>x. TaskFinished x \<notin> set rest) \<and>
               status_of s' a = Some ?st \<and>
               item_heap s' (listitem t) = Some ?row \<and>
               (exitcode \<noteq> 0 \<longrightarrow>
                  bar ?row = Some 0 \<and> texts ?row ! m_progress_column_index = ''Failed'')"
    using eq s'(1,2,3,4) sa row0
    by (simp add: finished_mid_def status_of_def setText_nth)
  then show "\<exists>mid s' rest row.
               task_finished_slot s exitcode = Inr s' \<and> start mid = Inr s' \<and>
               status_of mid a = Some (if exitcode = 0 then FINISHED else FAILED) \<and>
               (\<forall>b. b \<noteq> a \<longrightarrow> task_heap mid b = task_heap s b) \<and>
               m_current_task mid = None \<and> \<not> is_busy mid \<and>
               trace mid = trace s @ [TaskFinished exitcode] \<and>
               trace s' = trace s @ TaskFinished exitcode # rest \<and>
               (\<forall>x. TaskFinished x \<notin> set rest) \<and>
               status_of s' a = Some (if exitcode = 0 then FINISHED else FAILED) \<and>
               item_heap s' (listitem t) = Some row \<and>
               (exitcode \<noteq> 0 \<longrightarrow>
                  bar row = Some 0 \<and> texts row ! m_progress_column_index = ''Failed'')"
    by blast
qed

text \<open>
  In the example the running task fails with exit code 1; with nothing running the
  event is ignored.
\<close>

theorem C2_witness:
  "wf after_scenario \<and> m_current_task after_scenario = Some 10 \<and>
   (\<exists>s' rest row.
      task_finished_slot after_scenario 1 = Inr s' \<and>
      trace s' = trace after_scenario @ TaskFinished 1 # rest \<and>
      status_of s' 10 = Some FAILED \<and>
      item_heap s' 11 = Some row \<and> bar row = Some 0 \<and> texts row ! 3 = ''Failed'') \<and>
   task_finished_slot queued_two 0 = Inr queued_two"
proof -
  from C2_onFinished [OF wf_after_scenario, of 1]
  have "\<forall>a t. m_current_task after_scenario = Some a \<and> task_heap after_scenario a = Some t \<longrightarrow>
            (\<exists>mid s' rest row.
               task_finished_slot after_scenario 1 = Inr s' \<and> start mid = Inr s' \<and>
               status_of mid a = Some (if (1::int) = 0 then FINISHED else FAILED) \<and>
               (\<forall>b. b \<noteq> a \<longrightarrow> task_heap mid b = task_heap after_scenario b) \<and>
               m_current_task mid = None \<and> \<not> is_busy mid \<and>
               trace mid = trace after_scenario @ [TaskFinished 1] \<and>
               trace s' = trace after_scenario @ TaskFinished 1 # rest \<and>
               (\<forall>x. TaskFinished x \<notin> set rest) \<and>
               status_of s' a = Some (if (1::int) = 0 then FINISHED else FAILED) \<and>
               item_heap s' (listitem t) = Some row \<and>
               ((1::int) \<noteq> 0 \<longrightarrow>
                  bar row = Some 0 \<and> texts row ! m_progress_column_index = ''Failed''))"
    by blast
  from this [rule_format, OF conjI, OF after_scenario_fields(3) after_scenario_fields(6)]
  have "\<exists>s' rest row.
      task_finished_slot after_scenario 1 = Inr s' \<and>
      trace s' = trace after_scenario @ TaskFinished 1 # rest \<and>
      status_of s' 10 = Some FAILED \<and>
      item_heap s' 11 = Some row \<and> bar row = Some 0 \<and> texts row ! 3 = ''Failed''"
    by (simp add: m_progress_column_index_def) blast
  moreover from C2_onFinished [OF wf_queued_two, of 0]
  have "task_finished_slot queued_two 0 = Inr queued_two" by (simp add: queued_two_fields)
  ultimately show ?thesis using wf_after_scenario by (simp add: after_scenario_fields)
qed

subsection \<open>C3\<close>

text \<open>
  Claim C3. \<^verbatim>\<open>start()\<close> while busy returns the state unchanged, trace included. When not
  busy and some listed task is \<^verbatim>\<open>QUEUED\<close>, it takes the first such task in the order of
  the vector, at position \<open>k\<close>: the busy flag is set, that task and no other becomes
  \<^verbatim>\<open>RUNNING\<close> and current, the converter is started once with its parameters, and
  \<^verbatim>\<open>start_conversion(k, param)\<close> is emitted once.
\<close>

theorem C3_start:
  assumes "wf s"
  shows "(is_busy s \<longrightarrow> start s = Inr s) \<and>
         (\<not> is_busy s \<and> (\<exists>a \<in> set (m_tasks s). status_of s a = Some QUEUED) \<longrightarrow>
            (\<exists>k t. first_queued s k \<and> task_heap s (m_tasks s ! k) = Some t \<and>
               start s =
                 Inr (s\<lparr>is_busy := True,
                        task_heap := (task_heap s)(m_tasks s ! k \<mapsto> t\<lparr>status := RUNNING\<rparr>),
                        m_current_task := Some (m_tasks s ! k),
                        trace := trace s @ [ConverterStart (param t), StartConversion k (param t)]\<rparr>)))"
proof (intro conjI impI)
  assume "is_busy s"
  then show "start s = Inr s" by (rule start_busy)
next
  assume a: "\<not> is_busy s \<and> (\<exists>a \<in> set (m_tasks s). status_of s a = Some QUEUED)"
  with start_idle_cases [OF assms] show "\<exists>k t. first_queued s k \<and> task_heap s (m_tasks s ! k) = Some t \<and>
               start s =
                 Inr (s\<lparr>is_busy := True,
                        task_heap := (task_heap s)(m_tasks s ! k \<mapsto> t\<lparr>status := RUNNING\<rparr>),
                        m_current_task := Some (m_tasks s ! k),
                        trace := trace s @ [ConverterStart (param t), StartConversion k (param t)]\<rparr>)"
    unfolding started_def by blast
qed

text \<open>
  In the example \<^verbatim>\<open>start\<close> launches the first of the two waiting tasks, and a second
  \<^verbatim>\<open>start\<close> changes nothing.
\<close>

theorem C3_witness:
  "wf queued_two \<and> \<not> is_busy queued_two \<and> status_of queued_two 10 = Some QUEUED \<and>
   first_queued queued_two 0 \<and>
   start queued_two =
     Inr (queued_two\<lparr>is_busy := True,
            task_heap := (task_heap queued_two)(10 \<mapsto>
               \<lparr>id_no = 1, param = params_A, status = RUNNING, listitem = 11\<rparr>),
            m_current_task := Some 10,
            trace := trace queued_two @ [ConverterStart params_A, StartConversion 0 params_A]\<rparr>) \<and>
   start after_scenario = Inr after_scenario"
proof -
  have q: "\<exists>a \<in> set (m_tasks queued_two). status_of queued_two a = Some QUEUED"
    by (simp add: queued_two_fields status_of_def)
  have f0: "first_queued queued_two 0"
    by (simp add: first_queued_def queued_two_fields status_of_def)
  from C3_start [OF wf_queued_two] q queued_two_fields(3)
  obtain k t where k: "first_queued queued_two k" "task_heap queued_two (m_tasks queued_two ! k) = Some t"
    "start queued_two =
                 Inr (queued_two\<lparr>is_busy := True,
                        task_heap := (task_heap queued_two)(m_tasks queued_two ! k \<mapsto> t\<lparr>status := RUNNING\<rparr>),
                        m_current_task := Some (m_tasks queued_two ! k),
                        trace := trace queued_two @ [ConverterStart (param t), StartConversion k (param t)]\<rparr>)"
    by blast
  from k(1) f0 have "k = 0" by (rule first_queued_unique)
  with k(2,3) have "start queued_two =
     Inr (queued_two\<lparr>is_busy := True,
            task_heap := (task_heap queued_two)(10 \<mapsto>
               \<lparr>id_no = 1, param = params_A, status = RUNNING, listitem = 11\<rparr>),
            m_current_task := Some 10,
            trace := trace queued_two @ [ConverterStart params_A, StartConversion 0 params_A]\<rparr>)"
    by (auto simp: queued_two_fields)
  moreover from C3_start [OF wf_after_scenario] have "start after_scenario = Inr after_scenario"
    by (simp add: after_scenario_fields)
  ultimately show ?thesis
    using wf_queued_two f0 by (simp add: queued_two_fields status_of_def)
qed

subsection \<open>C4\<close>




subsection \<open>C5\<close>

text \<open>
  Claim C5. When the probe does not complete or reports an error, \<^verbatim>\<open>addTask\<close> returns
  false and changes nothing of the controller: the tasks, the vector, the rows,
  \<^verbatim>\<open>count()\<close>, the id counter, the current task and the busy flag are as before. The call
  to the probe is all that happened.
\<close>

theorem C5_addTask_probe_failure:
  assumes "\<not> wait_ok probe \<or> probe_error probe"
  shows "\<not> fst (addTask s p probe ta ia) \<and>
         task_heap (snd (addTask s p probe ta ia)) = task_heap s \<and>
         m_tasks (snd (addTask s p probe ta ia)) = m_tasks s \<and>
         item_heap (snd (addTask s p probe ta ia)) = item_heap s \<and>
         top_level_items (snd (addTask s p probe ta ia)) = top_level_items s \<and>
         count (snd (addTask s p probe ta ia)) = count s \<and>
         prev_index (snd (addTask s p probe ta ia)) = prev_index s \<and>
         m_current_task (snd (addTask s p probe ta ia)) = m_current_task s \<and>
         is_busy (snd (addTask s p probe ta ia)) = is_busy s \<and>
         trace (snd (addTask s p probe ta ia)) = trace s @ [ProbeStart (source p)]"
  using assms by (simp add: addTask_fail count_def)

text \<open>
  In the example a file whose probe reports an error is refused.
\<close>

theorem C5_witness:
  "probe_error probe_failed \<and>
   \<not> fst (addTask after_scenario params_A probe_failed 30 31) \<and>
   m_tasks (snd (addTask after_scenario params_A probe_failed 30 31)) = [10, 20] \<and>
   count (snd (addTask after_scenario params_A probe_failed 30 31)) = 2 \<and>
   prev_index (snd (addTask after_scenario params_A probe_failed 30 31)) = 2"
proof -
  have h: "\<not> wait_ok probe_failed \<or> probe_error probe_failed" by (simp add: probe_failed_def)
  from C5_addTask_probe_failure [OF h, of after_scenario params_A 30 31] show ?thesis
    by (simp add: after_scenario_fields count_def probe_failed_def)
qed

subsection \<open>C6\<close>

text \<open>
  Claim C6. \<^verbatim>\<open>stop()\<close> while the task at position \<open>k\<close> is running puts the bar of its row
  to 0, makes the task \<^verbatim>\<open>QUEUED\<close>, and clears the current task and the busy flag. If no
  task before position \<open>k\<close> is \<^verbatim>\<open>QUEUED\<close>, a \<^verbatim>\<open>start()\<close> right after makes the same task
  \<^verbatim>\<open>RUNNING\<close> and current again.
\<close>

theorem C6_stop_then_start:
  assumes "wf s" "k < length (m_tasks s)" "m_current_task s = Some (m_tasks s ! k)"
  shows "\<exists>s1 t row.
           task_heap s (m_tasks s ! k) = Some t \<and> item_heap s (listitem t) = Some row \<and>
           stop s = Inr s1 \<and>
           status_of s1 (m_tasks s ! k) = Some QUEUED \<and>
           item_heap s1 (listitem t) = Some (row\<lparr>bar := Some 0\<rparr>) \<and>
           m_current_task s1 = None \<and> \<not> is_busy s1 \<and> m_tasks s1 = m_tasks s \<and>
           ((\<forall>b \<in> set (take k (m_tasks s)). status_of s b \<noteq> Some QUEUED) \<longrightarrow>
              (\<exists>s2. start s1 = Inr s2 \<and> m_current_task s2 = Some (m_tasks s ! k) \<and>
                 status_of s2 (m_tasks s ! k) = Some RUNNING \<and> is_busy s2))"
proof -
  let ?a = "m_tasks s ! k"
  from assms(1,3) obtain t row where tr: "task_heap s ?a = Some t" "item_heap s (listitem t) = Some row"
    by (rule wf_current)
  let ?s1 = "s\<lparr>item_heap := (item_heap s)(listitem t \<mapsto> row\<lparr>bar := Some 0\<rparr>),
            task_heap := (task_heap s)(?a \<mapsto> t\<lparr>status := QUEUED\<rparr>),
            m_current_task := None,
            is_busy := False,
            trace := trace s @ [ConverterStop]\<rparr>"
  from assms(3) tr have st: "stop s = Inr ?s1" by (rule stop_Some)
  from assms(1,3) tr have w1: "wf ?s1" by (rule wf_stop_Some)
  then have t1: "tasks_ok ?s1" by (simp add: wf_def)
  from assms(1) have d: "distinct (m_tasks s)" by (simp add: wf_def tasks_ok_def)
  have again: "\<exists>s2. start ?s1 = Inr s2 \<and> m_current_task s2 = Some ?a \<and>
                 status_of s2 ?a = Some RUNNING \<and> is_busy s2"
    if nq0: "\<forall>b \<in> set (take k (m_tasks s)). status_of s b \<noteq> Some QUEUED"
  proof -
    from assms(2) have "k \<le> length (m_tasks s)" by simp
    from set_take_nth [OF this, of "\<lambda>b. status_of s b \<noteq> Some QUEUED"] nq0
    have nq: "\<forall>j<k. status_of s (m_tasks s ! j) \<noteq> Some QUEUED" by (simp only:)
    have "first_queued ?s1 k"
      unfolding first_queued_iff
    proof (intro conjI allI impI)
      show "k < length (m_tasks ?s1)" using assms(2) by simp
      show "status_of ?s1 (m_tasks ?s1 ! k) = Some QUEUED" by (simp add: status_of_def)
      fix j assume j: "j < k"
      with assms(2) d have "m_tasks s ! j \<noteq> ?a" by (simp add: nth_eq_iff_index_eq)
      with nq j show "status_of ?s1 (m_tasks ?s1 ! j) \<noteq> Some QUEUED" by (simp add: status_of_def)
    qed
    moreover have "task_heap ?s1 (m_tasks ?s1 ! k) = Some (t\<lparr>status := QUEUED\<rparr>)" by simp
    ultimately have "start ?s1 = Inr (started ?s1 k (t\<lparr>status := QUEUED\<rparr>))"
      using t1 by (intro start_first_queued) simp_all
    then show ?thesis by (simp add: started_def status_of_def)
  qed
  show ?thesis
    apply (rule exI [of _ ?s1], rule exI [of _ t], rule exI [of _ row])
    using tr st again by (simp add: status_of_def)
qed

text \<open>
  In the example the running first task is stopped and started again.
\<close>

theorem C6_witness:
  "wf after_scenario \<and> (0::nat) < length (m_tasks after_scenario) \<and>
   m_current_task after_scenario = Some (m_tasks after_scenario ! 0) \<and>
   (\<exists>s1. stop after_scenario = Inr s1 \<and> status_of s1 10 = Some QUEUED \<and>
      map_option bar (item_heap s1 11) = Some (Some 0) \<and>
      m_current_task s1 = None \<and> \<not> is_busy s1 \<and>
      (\<exists>s2. start s1 = Inr s2 \<and> m_current_task s2 = Some 10 \<and>
         status_of s2 10 = Some RUNNING \<and> is_busy s2))"
proof -
  have h: "(0::nat) < length (m_tasks after_scenario)"
    "m_current_task after_scenario = Some (m_tasks after_scenario ! 0)"
    by (simp_all add: after_scenario_fields)
  from C6_stop_then_start [OF wf_after_scenario h] wf_after_scenario h show ?thesis
    by (auto simp: after_scenario_fields)
qed

subsection \<open>C7\<close>

text \<open>
  On the empty list \<^verbatim>\<open>start\<close> returns right after \<^verbatim>\<open>stop()\<close>, by the test
  \<^verbatim>\<open>task_count == 0\<close>: the converter is told to stop and \<^verbatim>\<open>all_tasks_finished\<close> is not
  emitted. Claim C7 as stated fails in the state the constructor builds.
\<close>

theorem C7_counterexample:
  "\<not> is_busy ConvertList_init \<and> m_tasks ConvertList_init = [] \<and>
   start ConvertList_init = Inr (ConvertList_init\<lparr>trace := [ConverterStop]\<rparr>) \<and>
   AllTasksFinished \<notin> set (trace (ConvertList_init\<lparr>trace := [ConverterStop]\<rparr>))"
  by (simp add: ConvertList_init_def start_def stop_def)

text \<open>
  Claim C7, amended. When \<^verbatim>\<open>start()\<close> is called while not busy and no listed task is
  \<^verbatim>\<open>QUEUED\<close>, it calls \<^verbatim>\<open>stop()\<close>, so the busy flag is false afterwards; it then emits
  \<^verbatim>\<open>all_tasks_finished\<close> once if the list is not empty, and emits nothing if the list is
  empty.
\<close>

theorem C7_start_nothing_queued:
  assumes "wf s" "\<not> is_busy s" "\<forall>a \<in> set (m_tasks s). status_of s a \<noteq> Some QUEUED"
  shows "stop s = Inr (s\<lparr>is_busy := False, trace := trace s @ [ConverterStop]\<rparr>) \<and>
         start s =
           Inr (s\<lparr>is_busy := False,
                  trace := trace s @ (if m_tasks s = [] then [ConverterStop]
                                      else [ConverterStop, AllTasksFinished])\<rparr>)"
proof
  from wf_not_busy [OF assms(1,2)]
  show "stop s = Inr (s\<lparr>is_busy := False, trace := trace s @ [ConverterStop]\<rparr>)" by (rule stop_None)
next
  from start_idle_cases [OF assms(1,2)] assms(3)
  show "start s =
           Inr (s\<lparr>is_busy := False,
                  trace := trace s @ (if m_tasks s = [] then [ConverterStop]
                                      else [ConverterStop, AllTasksFinished])\<rparr>)"
    unfolding first_queued_iff by (metis nth_mem)
qed

text \<open>
  At the end of the example one task is finished and one has failed: \<^verbatim>\<open>start\<close> reports
  that all tasks are finished.
\<close>

theorem C7_witness:
  "wf drained \<and> \<not> is_busy drained \<and> status_of drained 10 = Some FINISHED \<and>
   status_of drained 20 = Some FAILED \<and>
   start drained = Inr (drained\<lparr>is_busy := False, trace := trace drained @ [ConverterStop, AllTasksFinished]\<rparr>)"
proof -
  have h: "\<not> is_busy drained" "\<forall>a \<in> set (m_tasks drained). status_of drained a \<noteq> Some QUEUED"
    by (simp_all add: drained_fields status_of_def)
  from C7_start_nothing_queued [OF wf_drained h] wf_drained show ?thesis
    by (simp add: drained_fields status_of_def)
qed

subsection \<open>C8\<close>

text \<open>
  Claim C8. In a state reached from the constructor, one operation changes the status of
  a task that it does not remove only from \<^verbatim>\<open>QUEUED\<close> to \<^verbatim>\<open>RUNNING\<close> (by \<^verbatim>\<open>start\<close>, also
  when \<^verbatim>\<open>task_finished_slot\<close> calls it), from \<^verbatim>\<open>RUNNING\<close> to \<^verbatim>\<open>FINISHED\<close> (completion with
  exit code 0), from \<^verbatim>\<open>RUNNING\<close> to \<^verbatim>\<open>FAILED\<close> (completion with another exit code), or
  from \<^verbatim>\<open>RUNNING\<close> to \<^verbatim>\<open>QUEUED\<close> (by \<^verbatim>\<open>stop\<close>). A task that is \<^verbatim>\<open>FINISHED\<close> or
  \<^verbatim>\<open>FAILED\<close> keeps its status along every further sequence of operations, until it
  is removed.
\<close>

theorem C8_status_edges:
  assumes "run ConvertList_init ops = Inr s" "task_heap s a = Some t"
  shows "(\<forall>x s' t'. exec s x = Inr s' \<and> task_heap s' a = Some t' \<longrightarrow>
            status t' = status t \<or> edge x (status t) (status t')) \<and>
         (status t = FINISHED \<or> status t = FAILED \<longrightarrow>
            (\<forall>xs fin. run s xs = Inr fin \<and> kept a s xs \<longrightarrow> status_of fin a = Some (status t)))"
proof (intro conjI allI impI)
  from wf_init assms(1) have w: "wf s" by (rule wf_run)
  {
    fix x s' t' assume "exec s x = Inr s' \<and> task_heap s' a = Some t'"
    then have "exec s x = Inr s'" "task_heap s' a = Some t'" by blast+
    with w assms(2) show "status t' = status t \<or> edge x (status t) (status t')"
      by (intro step_status)
  }
  {
    fix xs fin assume "status t = FINISHED \<or> status t = FAILED"
      and "run s xs = Inr fin \<and> kept a s xs"
    then show "status_of fin a = Some (status t)"
      using w assms(2) terminal_kept by blast
  }
qed

text \<open>
  In the example the completion of the first task takes it from \<^verbatim>\<open>RUNNING\<close> to
  \<^verbatim>\<open>FINISHED\<close> and the second from \<^verbatim>\<open>QUEUED\<close> to \<^verbatim>\<open>RUNNING\<close>; the next completion, a
  \<^verbatim>\<open>start\<close> and a \<^verbatim>\<open>stop\<close> leave the finished task alone.
\<close>

theorem C8_witness:
  "run ConvertList_init scenario = Inr after_scenario \<and>
   exec after_scenario (OnFinished 0) = Inr after_success \<and>
   status_of after_scenario 10 = Some RUNNING \<and> status_of after_success 10 = Some FINISHED \<and>
   status_of after_scenario 20 = Some QUEUED \<and> status_of after_success 20 = Some RUNNING \<and>
   edge (OnFinished 0) RUNNING FINISHED \<and> edge (OnFinished 0) QUEUED RUNNING \<and>
   run ConvertList_init (scenario @ [OnFinished 0]) = Inr after_success \<and>
   kept 10 after_success [OnFinished 1, Start, Stop] \<and>
   status_of (projr (run after_success [OnFinished 1, Start, Stop])) 10 = Some FINISHED"
proof -
  from C8_status_edges [OF run_scenario after_scenario_fields(6)]
    exec_after_scenario after_success_fields(1)
  have "edge (OnFinished 0) RUNNING FINISHED" by fastforce
  moreover
  from C8_status_edges [OF run_scenario after_scenario_fields(7)]
    exec_after_scenario after_success_fields(2)
  have "edge (OnFinished 0) QUEUED RUNNING" by fastforce
  moreover
  from run_scenario_tail
  have r: "run after_success [OnFinished 1, Start, Stop]
             = Inr (projr (run after_success [OnFinished 1, Start, Stop]))"
    by simp
  from C8_status_edges [OF run_after_success after_success_fields(1)] r kept_scenario_tail
  have "status_of (projr (run after_success [OnFinished 1, Start, Stop])) 10 = Some FINISHED"
    by fastforce
  ultimately show ?thesis
    using run_scenario exec_after_scenario run_after_success kept_scenario_tail
    by (simp add: status_of_def after_scenario_fields after_success_fields)
qed

subsection \<open>C9\<close>

text \<open>
  Claim C9. For an index within \<^verbatim>\<open>count()\<close> whose task is \<^verbatim>\<open>RUNNING\<close>, \<^verbatim>\<open>removeTask\<close>
  returns without an error and leaves the whole state as it was.
\<close>

theorem C9_remove_running:
  assumes "wf s" "0 \<le> index" "index < int (count s)"
    and "status_of s (m_tasks s ! nat index) = Some RUNNING"
  shows "removeTask s index = Inr s"
proof -
  from assms(1) have "rows_ok s" by (simp add: wf_def)
  from rows_ok_length [OF this] assms(3) have "index < int (length (m_tasks s))"
    by (simp add: count_def)
  moreover from assms(4) obtain t where "task_heap s (m_tasks s ! nat index) = Some t" "status t = RUNNING"
    by (auto simp: status_of_def)
  ultimately show ?thesis using assms(2) by (simp add: removeTask_running)
qed

text \<open>
  In the example the running task at index 0 is not removed.
\<close>

theorem C9_witness:
  "wf after_scenario \<and> (0::int) \<le> 0 \<and> 0 < int (count after_scenario) \<and>
   status_of after_scenario (m_tasks after_scenario ! nat 0) = Some RUNNING \<and>
   removeTask after_scenario 0 = Inr after_scenario"
proof -
  have h: "(0::int) \<le> 0" "0 < int (count after_scenario)"
    "status_of after_scenario (m_tasks after_scenario ! nat 0) = Some RUNNING"
    by (simp_all add: count_def status_of_def after_scenario_fields)
  from C9_remove_running [OF wf_after_scenario h] wf_after_scenario h show ?thesis by simp
qed

subsection \<open>C10\<close>

text \<open>
  Claim C10. \<^verbatim>\<open>progress_refreshed\<close> does not fail in a state that satisfies the invariant.
  Whenever it returns, the tasks, the vector, the list of rows, the id counter, the
  current task, the busy flag and the trace are as before; without a current task the
  state is unchanged, and with one the only change is the bar of its row, set to the
  percentage.
\<close>

theorem C10_progress_frame:
  "(wf s \<longrightarrow> (\<exists>s'. progress_refreshed s percentage = Inr s')) \<and>
   (\<forall>s'. progress_refreshed s percentage = Inr s' \<longrightarrow>
      task_heap s' = task_heap s \<and> m_tasks s' = m_tasks s \<and>
      top_level_items s' = top_level_items s \<and> prev_index s' = prev_index s \<and>
      m_current_task s' = m_current_task s \<and> is_busy s' = is_busy s \<and> trace s' = trace s \<and>
      (m_current_task s = None \<longrightarrow> s' = s) \<and>
      (\<forall>a t. m_current_task s = Some a \<and> task_heap s a = Some t \<longrightarrow>
         (\<exists>row. item_heap s (listitem t) = Some row \<and>
            item_heap s' = (item_heap s)(listitem t \<mapsto> row\<lparr>bar := Some percentage\<rparr>))))"
proof (intro conjI allI impI)
  assume "wf s"
  then show "\<exists>s'. progress_refreshed s percentage = Inr s'" by (rule progress_refreshed_total)
next
  fix s' assume r: "progress_refreshed s percentage = Inr s'"
  then show "task_heap s' = task_heap s" "m_tasks s' = m_tasks s"
    "top_level_items s' = top_level_items s" "prev_index s' = prev_index s"
    "m_current_task s' = m_current_task s" "is_busy s' = is_busy s" "trace s' = trace s"
    by (auto simp: progress_refreshed_def split: option.splits)
  {
    assume "m_current_task s = None"
    with r show "s' = s" by (simp add: progress_refreshed_None)
  }
  {
    fix a t assume "m_current_task s = Some a \<and> task_heap s a = Some t"
    with r show "\<exists>row. item_heap s (listitem t) = Some row \<and>
            item_heap s' = (item_heap s)(listitem t \<mapsto> row\<lparr>bar := Some percentage\<rparr>)"
      by (auto simp: progress_refreshed_def split: option.splits)
  }
qed

text \<open>
  In the example the bar of the running task's row goes to 40; with nothing running the
  event changes nothing.
\<close>

theorem C10_witness:
  "wf after_scenario \<and>
   progress_refreshed after_scenario 40 =
     Inr (after_scenario\<lparr>item_heap := (item_heap after_scenario)(11 \<mapsto>
            \<lparr>texts = [''a.avi'', ''a.mp4'', ''00:01:30'', ''''],
             tooltips = [''/in/a.avi'', ''/out/a.mp4''], bar = Some 40\<rparr>)\<rparr>) \<and>
   progress_refreshed queued_two 40 = Inr queued_two"
proof -
  from C10_progress_frame [of after_scenario 40] wf_after_scenario
  obtain s' where s': "progress_refreshed after_scenario 40 = Inr s'" by blast
  have row: "item_heap after_scenario 11 = Some \<lparr>texts = [''a.avi'', ''a.mp4'', ''00:01:30'', ''''],
             tooltips = [''/in/a.avi'', ''/out/a.mp4''], bar = None\<rparr>"
    by (simp add: after_scenario_def eval_simps params_A_def fileName_def)
  from C10_progress_frame [of after_scenario 40] s' after_scenario_fields(3,6) row
  have "item_heap s' = (item_heap after_scenario)(11 \<mapsto>
            \<lparr>texts = [''a.avi'', ''a.mp4'', ''00:01:30'', ''''],
             tooltips = [''/in/a.avi'', ''/out/a.mp4''], bar = Some 40\<rparr>)"
    by auto
  moreover from C10_progress_frame [of after_scenario 40] s'
  have "task_heap s' = task_heap after_scenario" "m_tasks s' = m_tasks after_scenario"
      "top_level_items s' = top_level_items after_scenario" "prev_index s' = prev_index after_scenario"
      "m_current_task s' = m_current_task after_scenario" "is_busy s' = is_busy after_scenario"
      "trace s' = trace after_scenario"
    by blast+
  ultimately have "s' = after_scenario\<lparr>item_heap := (item_heap after_scenario)(11 \<mapsto>
            \<lparr>texts = [''a.avi'', ''a.mp4'', ''00:01:30'', ''''],
             tooltips = [''/in/a.avi'', ''/out/a.mp4''], bar = Some 40\<rparr>)\<rparr>"
    by simp
  moreover have "progress_refreshed queued_two 40 = Inr queued_two"
    by (simp add: progress_refreshed_None queued_two_fields)
  ultimately show ?thesis using s' wf_after_scenario by simp
qed

end
